theory Spec2Isabelle
  imports Main "HOL-Library.Word" "HOL-Library.AList" "HOL-Library.Code_Target_Numeral"
begin

unbundle bit_operations_syntax

section \<open>Common types\<close>

text \<open>
  \<^verbatim>\<open>page_id_t\<close> is \<^verbatim>\<open>int32_t\<close>: a 32-bit word, read as signed with \<open>sint\<close>.
  \<^verbatim>\<open>frame_id_t\<close> values are only ever stored, compared and used as an index into the
  frame array, so they are natural numbers.
\<close>

type_synonym page_id_t = "32 word"
type_synonym frame_id_t = nat
type_synonym page_bytes = "8 word list"

definition INVALID_PAGE_ID :: page_id_t where
  "INVALID_PAGE_ID = - 1"

definition PAGE_SIZE :: nat where
  "PAGE_SIZE = 4096"

section \<open>LRU replacer (src/2020/src/buffer/lru\_replacer.cpp)\<close>

text \<open>
  \<^verbatim>\<open>lru_list_\<close> is a \<^verbatim>\<open>std::list<frame_id_t>\<close>, \<^verbatim>\<open>lru_map_\<close> maps a frame to the list
  node that holds it. The model keeps the list and the key set of the map; erasing the
  node an iterator of the map points to removes the occurrence of that frame in the list.
\<close>

record LRUReplacer =
  lru_list :: "frame_id_t list"
  lru_map :: "frame_id_t set"

definition LRUReplacer_new :: LRUReplacer where
  "LRUReplacer_new = \<lparr>lru_list = [], lru_map = {}\<rparr>"

definition Victim :: "LRUReplacer \<Rightarrow> frame_id_t option \<times> LRUReplacer" where
  "Victim r =
     (case lru_list r of
        [] \<Rightarrow> (None, r)
      | f # rest \<Rightarrow> (Some f, \<lparr>lru_list = rest, lru_map = lru_map r - {f}\<rparr>))"

definition Pin :: "frame_id_t \<Rightarrow> LRUReplacer \<Rightarrow> LRUReplacer" where
  "Pin f r =
     (if f \<notin> lru_map r then r
      else \<lparr>lru_list = remove1 f (lru_list r), lru_map = lru_map r - {f}\<rparr>)"

definition Unpin :: "frame_id_t \<Rightarrow> LRUReplacer \<Rightarrow> LRUReplacer" where
  "Unpin f r =
     (if f \<in> lru_map r then r
      else \<lparr>lru_list = lru_list r @ [f], lru_map = insert f (lru_map r)\<rparr>)"

definition Size :: "LRUReplacer \<Rightarrow> nat" where
  "Size r = length (lru_list r)"

text \<open>A call on the replacer, and a call together with what \<^verbatim>\<open>Victim\<close> returned.\<close>

datatype replacer_op = OpVictim | OpPin frame_id_t | OpUnpin frame_id_t

type_synonym replacer_event = "replacer_op \<times> frame_id_t option"

fun apply_op :: "replacer_op \<Rightarrow> LRUReplacer \<Rightarrow> frame_id_t option \<times> LRUReplacer" where
  "apply_op OpVictim r = Victim r"
| "apply_op (OpPin f) r = (None, Pin f r)"
| "apply_op (OpUnpin f) r = (None, Unpin f r)"

text \<open>Running a sequence of calls; the history is kept newest first.\<close>

fun replay :: "replacer_op list \<Rightarrow> replacer_event list \<times> LRUReplacer \<Rightarrow> replacer_event list \<times> LRUReplacer" where
  "replay [] st = st"
| "replay (opn # ops) (h, r) = (case apply_op opn r of (res, r') \<Rightarrow> replay ops ((opn, res) # h, r'))"

text \<open>
  What the spec says of a history: a frame becomes a candidate at the \<^verbatim>\<open>Unpin\<close> call that
  finds it not a candidate, and stops being one at a \<^verbatim>\<open>Pin\<close> of it or at the \<^verbatim>\<open>Victim\<close>
  call that returns it. \<open>candidate_since h f\<close> is the position in the history of the
  \<^verbatim>\<open>Unpin\<close> call since which \<open>f\<close> is a candidate, \<open>None\<close> when \<open>f\<close> is not one
  (it is pinned).
\<close>

fun candidate_since :: "replacer_event list \<Rightarrow> frame_id_t \<Rightarrow> nat option" where
  "candidate_since [] f = None"
| "candidate_since ((OpUnpin g, _) # older) f =
     (if g = f \<and> candidate_since older f = None then Some (length older) else candidate_since older f)"
| "candidate_since ((OpPin g, _) # older) f = (if g = f then None else candidate_since older f)"
| "candidate_since ((OpVictim, res) # older) f = (if res = Some f then None else candidate_since older f)"

definition earlier :: "replacer_event list \<Rightarrow> frame_id_t \<Rightarrow> frame_id_t \<Rightarrow> bool" where
  "earlier h f g \<longleftrightarrow> (\<exists>t u. candidate_since h f = Some t \<and> candidate_since h g = Some u \<and> t < u)"

text \<open>The invariant that ties the replacer's list to the history.\<close>

definition lru_inv :: "replacer_event list \<Rightarrow> LRUReplacer \<Rightarrow> bool" where
  "lru_inv h r \<longleftrightarrow>
     distinct (lru_list r) \<and> lru_map r = set (lru_list r) \<and>
     (\<forall>f. f \<notin> set (lru_list r) \<longrightarrow> candidate_since h f = None) \<and>
     (\<forall>f. f \<in> set (lru_list r) \<longrightarrow> candidate_since h f \<noteq> None) \<and>
     sorted_wrt (earlier h) (lru_list r)"

section \<open>Buffer pool instance (src/2021/src/buffer/buffer\_pool\_manager\_instance.cpp)\<close>

record Page =
  page_id :: page_id_t
  pin_count :: int
  is_dirty :: bool
  page_data :: page_bytes

text \<open>
  The disk manager is an external collaborator. It is modelled by the trace of its calls:
  the pages written, in order, and the page ids deallocated, in order.
\<close>

record DiskManager =
  writes :: "(page_id_t \<times> page_bytes) list"
  deallocated :: "page_id_t list"

definition WritePage :: "page_id_t \<Rightarrow> page_bytes \<Rightarrow> DiskManager \<Rightarrow> DiskManager" where
  "WritePage pid bytes d = d\<lparr>writes := writes d @ [(pid, bytes)]\<rparr>"

text \<open>Modelled from the spec: \<^verbatim>\<open>ReadPage\<close> of the disk manager, which is not among the
  sources: the bytes last written for the page id, zeros for a page never written.\<close>

definition ReadPage :: "page_id_t \<Rightarrow> DiskManager \<Rightarrow> page_bytes" where
  "ReadPage pid d =
     (case map_of (rev (writes d)) pid of
        None \<Rightarrow> replicate PAGE_SIZE 0
      | Some bytes \<Rightarrow> bytes)"

record BufferPoolManagerInstance =
  pool_size :: nat
  num_instances :: "32 word"
  instance_index :: "32 word"
  next_page_id :: page_id_t
  pages :: "Page list"
  page_table :: "(page_id_t \<times> frame_id_t) list"
  free_list :: "frame_id_t list"
  replacer :: LRUReplacer
  disk_manager :: DiskManager

definition Page_new :: Page where
  "Page_new = \<lparr>page_id = INVALID_PAGE_ID, pin_count = 0, is_dirty = False,
                page_data = replicate PAGE_SIZE 0\<rparr>"

text \<open>The constructor; a failed \<^verbatim>\<open>BUSTUB_ASSERT\<close> aborts the process (\<open>None\<close>).\<close>

definition BufferPoolManagerInstance_new ::
  "nat \<Rightarrow> 32 word \<Rightarrow> 32 word \<Rightarrow> DiskManager \<Rightarrow> BufferPoolManagerInstance option" where
  "BufferPoolManagerInstance_new psize n_instances inst_index dm =
     (if \<not> (0 < n_instances) then None
      else if \<not> (inst_index < n_instances) then None
      else Some \<lparr>pool_size = psize, num_instances = n_instances, instance_index = inst_index,
                 next_page_id = inst_index,
                 pages = replicate psize Page_new, page_table = [],
                 free_list = [0..<psize], replacer = LRUReplacer_new,
                 disk_manager = dm\<rparr>)"

text \<open>
  \<^verbatim>\<open>assert(page_id % num_instances_ == instance_index_)\<close>: \<^verbatim>\<open>num_instances_\<close> is
  \<^verbatim>\<open>uint32_t\<close>, so the signed page id is converted and the remainder is unsigned.
\<close>

definition ValidatePageId :: "BufferPoolManagerInstance \<Rightarrow> page_id_t \<Rightarrow> bool" where
  "ValidatePageId s pid = (pid mod num_instances s = instance_index s)"

definition AllocatePage :: "BufferPoolManagerInstance \<Rightarrow> (page_id_t \<times> BufferPoolManagerInstance) option" where
  "AllocatePage s =
     (let next = next_page_id s;
          s' = s\<lparr>next_page_id := next_page_id s + num_instances s\<rparr>
      in if ValidatePageId s' next then Some (next, s') else None)"

text \<open>Modelled from the spec: \<^verbatim>\<open>DeallocatePage\<close> is declared in the header, which is not
  among the sources; the spec says that \<^verbatim>\<open>DeletePage\<close> deallocates the page id via the disk
  manager. The call is recorded in the disk manager's trace.\<close>

definition DeallocatePage :: "page_id_t \<Rightarrow> BufferPoolManagerInstance \<Rightarrow> BufferPoolManagerInstance" where
  "DeallocatePage pid s =
     s\<lparr>disk_manager := (disk_manager s)\<lparr>deallocated := deallocated (disk_manager s) @ [pid]\<rparr>\<rparr>"

definition FlushPgImp :: "page_id_t \<Rightarrow> BufferPoolManagerInstance \<Rightarrow> bool \<times> BufferPoolManagerInstance" where
  "FlushPgImp pid s =
     (case map_of (page_table s) pid of
        None \<Rightarrow> (False, s)
      | Some f \<Rightarrow>
          (let s1 = s\<lparr>pages := (pages s)[f := (pages s ! f)\<lparr>is_dirty := False\<rparr>]\<rparr>
           in (True, s1\<lparr>disk_manager := WritePage pid (page_data (pages s1 ! f)) (disk_manager s1)\<rparr>)))"

text \<open>The loop of \<^verbatim>\<open>FlushAllPgsImp\<close> over the entries of the page table.\<close>

fun FlushAllPgsImp_loop ::
  "(page_id_t \<times> frame_id_t) list \<Rightarrow> BufferPoolManagerInstance \<Rightarrow> BufferPoolManagerInstance" where
  "FlushAllPgsImp_loop [] s = s"
| "FlushAllPgsImp_loop ((pid, f) # rest) s =
     FlushAllPgsImp_loop rest
       (s\<lparr>disk_manager := WritePage pid (page_data (pages s ! f)) (disk_manager s)\<rparr>)"

definition FlushAllPgsImp :: "BufferPoolManagerInstance \<Rightarrow> BufferPoolManagerInstance" where
  "FlushAllPgsImp s = FlushAllPgsImp_loop (page_table s) s"

definition NewPgImp :: "BufferPoolManagerInstance \<Rightarrow> ((page_id_t \<times> frame_id_t) option \<times> BufferPoolManagerInstance) option" where
  "NewPgImp s =
     (let got =
        (case free_list s of
           f # rest \<Rightarrow> Some (f, s\<lparr>free_list := rest\<rparr>)
         | [] \<Rightarrow>
            (case Victim (replacer s) of
               (None, _) \<Rightarrow> None
             | (Some f, r') \<Rightarrow>
                 (let page = pages s ! f;
                      d1 = (if is_dirty page
                            then WritePage (page_id page) (page_data page) (disk_manager s)
                            else disk_manager s)
                  in Some (f, s\<lparr>replacer := r', disk_manager := d1,
                                 page_table := filter (\<lambda>e. fst e \<noteq> page_id page) (page_table s)\<rparr>))))
      in case got of
           None \<Rightarrow> Some (None, s)
         | Some (f, s1) \<Rightarrow>
            (case AllocatePage s1 of
               None \<Rightarrow> None
             | Some (pid, s2) \<Rightarrow>
                 Some (Some (pid, f),
                   s2\<lparr>pages := (pages s2)[f := \<lparr>page_id = pid, pin_count = 1, is_dirty = False,
                                                  page_data = replicate PAGE_SIZE 0\<rparr>],
                      page_table := AList.update pid f (page_table s2),
                      replacer := Pin f (replacer s2)\<rparr>)))"

definition FetchPgImp :: "page_id_t \<Rightarrow> BufferPoolManagerInstance \<Rightarrow> frame_id_t option \<times> BufferPoolManagerInstance" where
  "FetchPgImp pid s =
     (case map_of (page_table s) pid of
        Some f \<Rightarrow>
          (Some f, s\<lparr>pages := (pages s)[f := (pages s ! f)\<lparr>pin_count := pin_count (pages s ! f) + 1\<rparr>],
                     replacer := Pin f (replacer s)\<rparr>)
      | None \<Rightarrow>
         (let got =
            (case free_list s of
               f # rest \<Rightarrow> Some (f, s\<lparr>free_list := rest\<rparr>)
             | [] \<Rightarrow>
                (case Victim (replacer s) of
                   (None, _) \<Rightarrow> None
                 | (Some f, r') \<Rightarrow>
                     (let page = pages s ! f;
                          d1 = (if is_dirty page
                                then WritePage (page_id page) (page_data page) (disk_manager s)
                                else disk_manager s)
                      in Some (f, s\<lparr>replacer := r', disk_manager := d1,
                                     page_table := filter (\<lambda>e. fst e \<noteq> page_id page) (page_table s)\<rparr>))))
          in case got of
               None \<Rightarrow> (None, s)
             | Some (f, s1) \<Rightarrow>
                 (Some f,
                  s1\<lparr>pages := (pages s1)[f := \<lparr>page_id = pid, pin_count = 1, is_dirty = False,
                                                 page_data = ReadPage pid (disk_manager s1)\<rparr>],
                     page_table := AList.update pid f (page_table s1),
                     replacer := Pin f (replacer s1)\<rparr>)))"

definition DeletePgImp :: "page_id_t \<Rightarrow> BufferPoolManagerInstance \<Rightarrow> bool \<times> BufferPoolManagerInstance" where
  "DeletePgImp pid s0 =
     (let s = DeallocatePage pid s0 in
      case map_of (page_table s) pid of
        None \<Rightarrow> (True, s)
      | Some f \<Rightarrow>
          (let page = pages s ! f in
           if 0 < pin_count page then (False, s)
           else
             (let d1 = (if is_dirty page then WritePage pid (page_data page) (disk_manager s)
                        else disk_manager s)
              in (True,
                  s\<lparr>disk_manager := d1,
                    replacer := Pin f (replacer s),
                    page_table := filter (\<lambda>e. fst e \<noteq> pid) (page_table s),
                    pages := (pages s)[f := \<lparr>page_id = INVALID_PAGE_ID, pin_count = 0,
                                               is_dirty = False,
                                               page_data = replicate PAGE_SIZE 0\<rparr>],
                    free_list := free_list s @ [f]\<rparr>))))"

definition UnpinPgImp :: "page_id_t \<Rightarrow> bool \<Rightarrow> BufferPoolManagerInstance \<Rightarrow> bool \<times> BufferPoolManagerInstance" where
  "UnpinPgImp pid dirty s =
     (case map_of (page_table s) pid of
        None \<Rightarrow> (False, s)
      | Some f \<Rightarrow>
          (let page = pages s ! f in
           if pin_count page \<le> 0 then (False, s)
           else
             (let page1 = (if dirty then page\<lparr>is_dirty := dirty\<rparr> else page);
                  page2 = page1\<lparr>pin_count := pin_count page1 - 1\<rparr>;
                  s1 = s\<lparr>pages := (pages s)[f := page2]\<rparr>
              in (True, if pin_count page2 \<le> 0 then s1\<lparr>replacer := Unpin f (replacer s1)\<rparr> else s1))))"

text \<open>The result of the \<open>n\<close>-th call of \<^verbatim>\<open>AllocatePage\<close>, counting from 0.\<close>

fun AllocatePage_nth :: "nat \<Rightarrow> BufferPoolManagerInstance \<Rightarrow> (page_id_t \<times> BufferPoolManagerInstance) option" where
  "AllocatePage_nth 0 s = AllocatePage s"
| "AllocatePage_nth (Suc n) s =
     (case AllocatePage s of None \<Rightarrow> None | Some (_, s') \<Rightarrow> AllocatePage_nth n s')"

text \<open>What the spec says \<^verbatim>\<open>FlushAll\<close> is: \<^verbatim>\<open>FlushPage\<close> over every mapping of the page
  table.\<close>

definition FlushAll_spec :: "BufferPoolManagerInstance \<Rightarrow> BufferPoolManagerInstance" where
  "FlushAll_spec s = fold (\<lambda>e acc. snd (FlushPgImp (fst e) acc)) (page_table s) s"

section \<open>Lock manager (src/2021/src/concurrency/lock\_manager.cpp)\<close>

text \<open>
  \<^verbatim>\<open>txn_id_t\<close> is \<^verbatim>\<open>int32_t\<close>; transaction ids are only stored and compared, so they
  are integers. A lower id is an older transaction. A \<^verbatim>\<open>RID\<close> is a page id and a slot.
\<close>

type_synonym txn_id_t = int
type_synonym RID = "page_id_t \<times> 32 word"

definition INVALID_TXN_ID :: txn_id_t where
  "INVALID_TXN_ID = - 1"

datatype TransactionState = GROWING | SHRINKING | COMMITTED | ABORTED
datatype IsolationLevel = READ_UNCOMMITTED | REPEATABLE_READ | READ_COMMITTED
datatype LockMode = SHARED | EXCLUSIVE
datatype AbortReason = LOCK_ON_SHRINKING | UPGRADE_CONFLICT

record LockRequest =
  txn_id :: txn_id_t
  lock_mode :: LockMode
  granted :: bool

record LockRequestQueue =
  request_queue :: "LockRequest list"
  upgrading :: txn_id_t

record Transaction =
  state :: TransactionState
  isolation_level :: IsolationLevel
  shared_lock_set :: "RID set"
  exclusive_lock_set :: "RID set"

text \<open>
  The state the lock manager works on: its lock table (\<^verbatim>\<open>lock_table_[rid]\<close> creates an
  empty queue for a new rid, so the table is a total function), and the transactions, which
  the code reaches both through the \<^verbatim>\<open>Transaction *\<close> it is given and through
  \<^verbatim>\<open>TransactionManager::GetTransaction(txn_id)\<close>: one map from ids to transactions.
\<close>

record LockManager =
  lock_table :: "RID \<Rightarrow> LockRequestQueue"
  txn_map :: "txn_id_t \<Rightarrow> Transaction"

text \<open>
  How a call ends. Every lock call of the source runs under the latch until it returns,
  throws, or blocks in \<^verbatim>\<open>cv_.wait\<close>; while it is blocked other calls run, and it
  continues at a wakeup. \<open>Undefined\<close> stands for undefined behaviour of the C++ (an
  iterator run past the end of the queue, a non-void function that flows off its end).
\<close>

datatype outcome = Returned bool | Threw AbortReason | Blocked | Undefined

definition CheckAbort :: "Transaction \<Rightarrow> bool" where
  "CheckAbort txn = (state txn = ABORTED)"

definition SetState :: "txn_id_t \<Rightarrow> TransactionState \<Rightarrow> (txn_id_t \<Rightarrow> Transaction) \<Rightarrow> (txn_id_t \<Rightarrow> Transaction)" where
  "SetState t st txns = txns(t := (txns t)\<lparr>state := st\<rparr>)"

text \<open>
  The \<^verbatim>\<open>for\<close> loop of \<^verbatim>\<open>NeedWait\<close>, from \<^verbatim>\<open>first_iter\<close> until the request of the
  calling transaction. The result is \<open>(need_wait, has_aborted, transactions)\<close>.
\<close>

fun NeedWait_loop ::
  "txn_id_t \<Rightarrow> LockMode \<Rightarrow> LockRequest list \<Rightarrow> (txn_id_t \<Rightarrow> Transaction) \<Rightarrow> bool \<Rightarrow> bool
     \<Rightarrow> (bool \<times> bool \<times> (txn_id_t \<Rightarrow> Transaction)) option" where
  "NeedWait_loop t self_mode [] txns need_wait has_aborted = None"
| "NeedWait_loop t self_mode (it # rest) txns need_wait has_aborted =
     (if txn_id it = t then Some (need_wait, has_aborted, txns)
      else if txn_id it > t then
        (let situation1 = (self_mode = SHARED \<and> lock_mode it = EXCLUSIVE);
             situation2 = (self_mode = EXCLUSIVE)
         in if situation1 \<or> situation2 then
              (if state (txns (txn_id it)) \<noteq> ABORTED
               then NeedWait_loop t self_mode rest (SetState (txn_id it) ABORTED txns) need_wait True
               else NeedWait_loop t self_mode rest txns need_wait has_aborted)
            else NeedWait_loop t self_mode rest txns need_wait has_aborted)
      else NeedWait_loop t self_mode rest txns
             (need_wait \<or> self_mode = EXCLUSIVE \<or> lock_mode it = EXCLUSIVE) has_aborted)"

text \<open>\<^verbatim>\<open>self\<close> is \<^verbatim>\<open>request_queue_.back()\<close>: the last request of the queue.\<close>

definition NeedWait ::
  "txn_id_t \<Rightarrow> LockRequestQueue \<Rightarrow> (txn_id_t \<Rightarrow> Transaction)
     \<Rightarrow> (bool \<times> bool \<times> (txn_id_t \<Rightarrow> Transaction)) option" where
  "NeedWait t q txns =
     (case request_queue q of
        [] \<Rightarrow> None
      | first # _ \<Rightarrow>
          (let self = last (request_queue q) in
           if lock_mode self = SHARED \<and> (txn_id first = t \<or> lock_mode first = SHARED)
           then Some (False, False, txns)
           else if lock_mode self \<noteq> SHARED \<and> txn_id first = t
           then Some (False, False, txns)
           else NeedWait_loop t (lock_mode self) (request_queue q) txns False False))"

text \<open>
  The text of \<^verbatim>\<open>NeedWaitUpdate\<close> (lines 269 to 292) opens one brace more than it closes:
  the brace of the inner \<^verbatim>\<open>if\<close> (line 277) has no partner, the brace of line 292 closes the
  \<^verbatim>\<open>for\<close>, and the function body is still open where the file ends. As shipped the file
  does not compile, and a function is obtained only by adding a closing brace somewhere.

  \<open>NeedWaitUpdate_loop\<close> leaves the closing braces where they stand and closes the function
  after line 292: \<^verbatim>\<open>continue\<close> belongs to the inner \<^verbatim>\<open>if\<close>, \<^verbatim>\<open>need_wait = true\<close> to the
  outer one, and the notification and \<^verbatim>\<open>return need_wait\<close> stand inside the loop body. When
  the loop ends at the caller's own request, the function flows off its end without a
  \<^verbatim>\<open>return\<close>. This is the function \<^verbatim>\<open>LockUpgrade\<close> is given below.
\<close>

fun NeedWaitUpdate_loop ::
  "txn_id_t \<Rightarrow> LockRequest list \<Rightarrow> (txn_id_t \<Rightarrow> Transaction) \<Rightarrow> bool \<Rightarrow> bool
     \<Rightarrow> (bool \<times> bool \<times> (txn_id_t \<Rightarrow> Transaction)) option" where
  "NeedWaitUpdate_loop t [] txns need_wait has_aborted = None"
| "NeedWaitUpdate_loop t (it # rest) txns need_wait has_aborted =
     (if txn_id it = t then None
      else if txn_id it > t then
        (if state (txns (txn_id it)) \<noteq> ABORTED
         then NeedWaitUpdate_loop t rest (SetState (txn_id it) ABORTED txns) need_wait True
         else Some (True, has_aborted, txns))
      else Some (need_wait, has_aborted, txns))"

definition NeedWaitUpdate ::
  "txn_id_t \<Rightarrow> LockRequestQueue \<Rightarrow> (txn_id_t \<Rightarrow> Transaction)
     \<Rightarrow> (bool \<times> bool \<times> (txn_id_t \<Rightarrow> Transaction)) option" where
  "NeedWaitUpdate t q txns = NeedWaitUpdate_loop t (request_queue q) txns False False"

text \<open>
  What the spec says the upgrade-wait predicate is: wound every younger request ahead of
  the caller's own; wait if and only if an older request is ahead of it.
\<close>

definition requests_ahead :: "txn_id_t \<Rightarrow> LockRequest list \<Rightarrow> LockRequest list" where
  "requests_ahead t reqs = takeWhile (\<lambda>r. txn_id r \<noteq> t) reqs"

definition NeedWaitUpdate_spec ::
  "txn_id_t \<Rightarrow> LockRequestQueue \<Rightarrow> (txn_id_t \<Rightarrow> Transaction) \<Rightarrow> bool \<times> (txn_id_t \<Rightarrow> Transaction)" where
  "NeedWaitUpdate_spec t q txns =
     (list_ex (\<lambda>r. txn_id r < t) (requests_ahead t (request_queue q)),
      fold (\<lambda>r acc. if txn_id r > t then SetState (txn_id r) ABORTED acc else acc)
           (requests_ahead t (request_queue q)) txns)"

text \<open>
  The same text with the missing brace put where \<^verbatim>\<open>NeedWait\<close> closes the same block
  (after \<^verbatim>\<open>has_aborted = true\<close>, its lines 244 to 248; here the blank line 280):
  \<^verbatim>\<open>continue\<close> then ends the iteration of every younger request, \<^verbatim>\<open>need_wait = true\<close>
  is reached at every older one, and the notification and the return follow the loop.
\<close>

fun NeedWaitUpdate_braced_loop ::
  "txn_id_t \<Rightarrow> LockRequest list \<Rightarrow> (txn_id_t \<Rightarrow> Transaction) \<Rightarrow> bool \<Rightarrow> bool
     \<Rightarrow> (bool \<times> bool \<times> (txn_id_t \<Rightarrow> Transaction)) option" where
  "NeedWaitUpdate_braced_loop t [] txns need_wait has_aborted = None"
| "NeedWaitUpdate_braced_loop t (it # rest) txns need_wait has_aborted =
     (if txn_id it = t then Some (need_wait, has_aborted, txns)
      else if txn_id it > t then
        (if state (txns (txn_id it)) \<noteq> ABORTED
         then NeedWaitUpdate_braced_loop t rest (SetState (txn_id it) ABORTED txns) need_wait True
         else NeedWaitUpdate_braced_loop t rest txns need_wait has_aborted)
      else NeedWaitUpdate_braced_loop t rest txns True has_aborted)"

definition NeedWaitUpdate_braced ::
  "txn_id_t \<Rightarrow> LockRequestQueue \<Rightarrow> (txn_id_t \<Rightarrow> Transaction)
     \<Rightarrow> (bool \<times> bool \<times> (txn_id_t \<Rightarrow> Transaction)) option" where
  "NeedWaitUpdate_braced t q txns =
     NeedWaitUpdate_braced_loop t (request_queue q) txns False False"

text \<open>
  The wait loop of \<^verbatim>\<open>LockShared\<close> and \<^verbatim>\<open>LockExclusive\<close> from its test on, and the
  granting that follows it. \<^verbatim>\<open>notify_all\<close> changes no data and is not modelled.
\<close>

definition grant_all :: "txn_id_t \<Rightarrow> LockRequest list \<Rightarrow> LockRequest list" where
  "grant_all t reqs = map (\<lambda>r. if txn_id r = t then r\<lparr>granted := True\<rparr> else r) reqs"

definition Lock_check_and_grant :: "txn_id_t \<Rightarrow> RID \<Rightarrow> LockManager \<Rightarrow> outcome \<times> LockManager" where
  "Lock_check_and_grant t rid w =
     (case NeedWait t (lock_table w rid) (txn_map w) of
        None \<Rightarrow> (Undefined, w)
      | Some (need_wait, has_aborted, txns') \<Rightarrow>
          (if need_wait then (Blocked, w\<lparr>txn_map := txns'\<rparr>)
           else
             (let q = lock_table w rid;
                  q' = q\<lparr>request_queue := grant_all t (request_queue q)\<rparr>
              in (Returned True,
                  w\<lparr>lock_table := (lock_table w)(rid := q'),
                    txn_map := SetState t GROWING txns'\<rparr>))))"

definition enqueue :: "LockRequest \<Rightarrow> RID \<Rightarrow> LockManager \<Rightarrow> LockManager" where
  "enqueue req rid w =
     w\<lparr>lock_table := (lock_table w)
          (rid := (lock_table w rid)\<lparr>request_queue := request_queue (lock_table w rid) @ [req]\<rparr>)\<rparr>"

text \<open>\<^verbatim>\<open>LockShared\<close> from its entry to its first return, throw or wait.\<close>

definition LockShared :: "txn_id_t \<Rightarrow> RID \<Rightarrow> LockManager \<Rightarrow> outcome \<times> LockManager" where
  "LockShared t rid w =
     (let txn = txn_map w t in
      if CheckAbort txn then (Returned False, w)
      else if isolation_level txn = READ_UNCOMMITTED
      then (Returned False, w\<lparr>txn_map := SetState t ABORTED (txn_map w)\<rparr>)
      else if state txn \<noteq> GROWING
      then (Threw LOCK_ON_SHRINKING, w\<lparr>txn_map := SetState t ABORTED (txn_map w)\<rparr>)
      else if rid \<in> shared_lock_set txn then (Returned True, w)
      else
        (let w1 = enqueue \<lparr>txn_id = t, lock_mode = SHARED, granted = False\<rparr> rid w;
             w2 = w1\<lparr>txn_map := (txn_map w1)
                       (t := (txn_map w1 t)\<lparr>shared_lock_set := insert rid (shared_lock_set (txn_map w1 t))\<rparr>)\<rparr>
         in Lock_check_and_grant t rid w2))"

definition LockExclusive :: "txn_id_t \<Rightarrow> RID \<Rightarrow> LockManager \<Rightarrow> outcome \<times> LockManager" where
  "LockExclusive t rid w =
     (let txn = txn_map w t in
      if CheckAbort txn then (Returned False, w)
      else if state txn \<noteq> GROWING
      then (Threw LOCK_ON_SHRINKING, w\<lparr>txn_map := SetState t ABORTED (txn_map w)\<rparr>)
      else if rid \<in> exclusive_lock_set txn then (Returned True, w)
      else
        (let w1 = enqueue \<lparr>txn_id = t, lock_mode = EXCLUSIVE, granted = False\<rparr> rid w;
             w2 = w1\<lparr>txn_map := (txn_map w1)
                       (t := (txn_map w1 t)\<lparr>exclusive_lock_set := insert rid (exclusive_lock_set (txn_map w1 t))\<rparr>)\<rparr>
         in Lock_check_and_grant t rid w2))"

text \<open>
  A blocked \<^verbatim>\<open>LockShared\<close> or \<^verbatim>\<open>LockExclusive\<close> call continuing after \<^verbatim>\<open>cv_.wait\<close>
  has returned, in the state the other calls have left.
\<close>

definition Lock_wakeup :: "txn_id_t \<Rightarrow> RID \<Rightarrow> LockManager \<Rightarrow> outcome \<times> LockManager" where
  "Lock_wakeup t rid w =
     (if CheckAbort (txn_map w t) then (Returned False, w)
      else Lock_check_and_grant t rid w)"

text \<open>
  The loop after the wait loop of \<^verbatim>\<open>LockUpgrade\<close>. It iterates with \<^verbatim>\<open>auto iter\<close>, a
  copy of each request: the assignments to \<^verbatim>\<open>iter.granted_\<close> and \<^verbatim>\<open>iter.lock_mode_\<close>
  change the copy, and the queue is not written.
\<close>

definition LockUpgrade_finish :: "txn_id_t \<Rightarrow> RID \<Rightarrow> LockManager \<Rightarrow> LockManager" where
  "LockUpgrade_finish t rid w =
     (case find (\<lambda>r. txn_id r = t) (request_queue (lock_table w rid)) of
        None \<Rightarrow> w
      | Some iter \<Rightarrow>
          (let iter_copy = iter\<lparr>granted := True, lock_mode := EXCLUSIVE\<rparr>;
               txn = (txn_map w t)\<lparr>state := GROWING\<rparr>;
               txn1 = txn\<lparr>shared_lock_set := shared_lock_set txn - {rid}\<rparr>;
               txn2 = txn1\<lparr>exclusive_lock_set := insert rid (exclusive_lock_set txn1)\<rparr>
           in w\<lparr>txn_map := (txn_map w)(t := txn2)\<rparr>))"

definition LockUpgrade_check_and_finish :: "txn_id_t \<Rightarrow> RID \<Rightarrow> LockManager \<Rightarrow> outcome \<times> LockManager" where
  "LockUpgrade_check_and_finish t rid w =
     (case NeedWaitUpdate t (lock_table w rid) (txn_map w) of
        None \<Rightarrow> (Undefined, w)
      | Some (need_wait, has_aborted, txns') \<Rightarrow>
          (if need_wait then (Blocked, w\<lparr>txn_map := txns'\<rparr>)
           else (Returned True, LockUpgrade_finish t rid (w\<lparr>txn_map := txns'\<rparr>))))"

definition LockUpgrade :: "txn_id_t \<Rightarrow> RID \<Rightarrow> LockManager \<Rightarrow> outcome \<times> LockManager" where
  "LockUpgrade t rid w =
     (let txn = txn_map w t in
      if CheckAbort txn then (Returned False, w)
      else if state txn \<noteq> GROWING
      then (Threw UPGRADE_CONFLICT, w\<lparr>txn_map := SetState t ABORTED (txn_map w)\<rparr>)
      else if rid \<in> exclusive_lock_set txn then (Returned True, w)
      else LockUpgrade_check_and_finish t rid w)"

definition LockUpgrade_wakeup :: "txn_id_t \<Rightarrow> RID \<Rightarrow> LockManager \<Rightarrow> outcome \<times> LockManager" where
  "LockUpgrade_wakeup t rid w =
     (if CheckAbort (txn_map w t) then (Returned False, w)
      else LockUpgrade_check_and_finish t rid w)"

text \<open>\<^verbatim>\<open>request_queue_.erase(iter)\<close> at the first request of the transaction.\<close>

fun erase_first :: "txn_id_t \<Rightarrow> LockRequest list \<Rightarrow> LockRequest list" where
  "erase_first t [] = []"
| "erase_first t (r # rest) = (if txn_id r = t then rest else r # erase_first t rest)"

definition Unlock :: "txn_id_t \<Rightarrow> RID \<Rightarrow> LockManager \<Rightarrow> bool \<times> LockManager" where
  "Unlock t rid w =
     (let txn = txn_map w t in
      if rid \<notin> shared_lock_set txn \<and> rid \<notin> exclusive_lock_set txn then (False, w)
      else
        (let q = lock_table w rid;
             q1 = (if upgrading q = t then q\<lparr>upgrading := INVALID_TXN_ID\<rparr> else q);
             found = list_ex (\<lambda>r. txn_id r = t) (request_queue q1);
             q2 = q1\<lparr>request_queue := erase_first t (request_queue q1)\<rparr>;
             w1 = w\<lparr>lock_table := (lock_table w)(rid := q2)\<rparr>
         in if \<not> found then (False, w1)
            else
              (let txn1 = (if state txn = GROWING \<and> isolation_level txn = REPEATABLE_READ
                           then txn\<lparr>state := SHRINKING\<rparr> else txn);
                   txn2 = txn1\<lparr>shared_lock_set := shared_lock_set txn1 - {rid}\<rparr>;
                   txn3 = txn2\<lparr>exclusive_lock_set := exclusive_lock_set txn2 - {rid}\<rparr>
               in (True, w1\<lparr>txn_map := (txn_map w1)(t := txn3)\<rparr>))))"

text \<open>A lock manager with no request, and transactions as the transaction manager
  creates them: \<^verbatim>\<open>GROWING\<close>, \<^verbatim>\<open>REPEATABLE_READ\<close>, holding no lock.\<close>

definition LockManager_new :: LockManager where
  "LockManager_new =
     \<lparr>lock_table = (\<lambda>_. \<lparr>request_queue = [], upgrading = INVALID_TXN_ID\<rparr>),
      txn_map = (\<lambda>_. \<lparr>state = GROWING, isolation_level = REPEATABLE_READ,
                       shared_lock_set = {}, exclusive_lock_set = {}\<rparr>)\<rparr>"

text \<open>\<open>txns'\<close> differs from \<open>txns\<close> at most in that transactions younger than \<open>t\<close>
  have been set to \<^verbatim>\<open>ABORTED\<close>.\<close>

definition wounds_only_younger ::
  "txn_id_t \<Rightarrow> (txn_id_t \<Rightarrow> Transaction) \<Rightarrow> (txn_id_t \<Rightarrow> Transaction) \<Rightarrow> bool" where
  "wounds_only_younger t txns txns' \<longleftrightarrow>
     (\<forall>u. txns' u = txns u \<or> (t < u \<and> txns' u = (txns u)\<lparr>state := ABORTED\<rparr>))"

text \<open>
  Transaction 1 holds the exclusive lock on a row; 5 and 3 request the shared lock and
  wait; 7 requests the exclusive lock and waits; 6 requests the exclusive lock, wounds 7,
  notifies all waiters and waits.
\<close>

definition wound_scenario :: LockManager where
  "wound_scenario =
     snd (LockExclusive 6 (0, 0) (snd (LockExclusive 7 (0, 0) (snd (LockShared 3 (0, 0)
       (snd (LockShared 5 (0, 0) (snd (LockExclusive 1 (0, 0) LockManager_new)))))))))"

text \<open>Transactions 1 and 2 both hold the shared lock on a row.\<close>

definition two_readers :: LockManager where
  "two_readers = snd (LockShared 2 (0, 0) (snd (LockShared 1 (0, 0) LockManager_new)))"

text \<open>Transaction 2 alone holds the shared lock on a row.\<close>

definition one_reader :: LockManager where
  "one_reader = snd (LockShared 2 (0, 0) LockManager_new)"

text \<open>Transaction 1 holds the exclusive lock on a row; then transaction 2 asks for the
  shared lock and waits; then transaction 0 asks for the exclusive lock and wounds both.\<close>

definition holder_1 :: LockManager where
  "holder_1 = snd (LockExclusive 1 (0, 0) LockManager_new)"

definition waiter_2 :: LockManager where
  "waiter_2 = snd (LockShared 2 (0, 0) holder_1)"

definition waiter_2_wounded :: LockManager where
  "waiter_2_wounded = snd (LockExclusive 0 (0, 0) waiter_2)"

text \<open>Transactions 1 and 2 both hold the shared lock on a row; then 2 asks for the exclusive
  lock with \<^verbatim>\<open>LockExclusive\<close>, which enqueues a second request of 2 and waits; then
  transaction 0 asks for the exclusive lock and wounds 1 and 2.\<close>

definition two_requests :: LockManager where
  "two_requests = snd (LockExclusive 2 (0, 0) two_readers)"

definition two_requests_wounded :: LockManager where
  "two_requests_wounded = snd (LockExclusive 0 (0, 0) two_requests)"

text \<open>The requests of a transaction in the queue of a rid, in queue order.\<close>

definition requests_of :: "txn_id_t \<Rightarrow> RID \<Rightarrow> LockManager \<Rightarrow> LockRequest list" where
  "requests_of t rid w = filter (\<lambda>r. txn_id r = t) (request_queue (lock_table w rid))"

text \<open>The steps other threads can take while a call is blocked or after it has returned:
  each public call from its entry to its first return, throw or wait, and each blocked call
  from a wakeup on. \<open>lock_step\<close> is the state a step leaves.\<close>

datatype lock_call =
    CallLockShared txn_id_t RID
  | CallLockExclusive txn_id_t RID
  | CallLockUpgrade txn_id_t RID
  | WakeLock txn_id_t RID
  | WakeLockUpgrade txn_id_t RID
  | CallUnlock txn_id_t RID

fun lock_step :: "lock_call \<Rightarrow> LockManager \<Rightarrow> LockManager" where
  "lock_step (CallLockShared u r) w = snd (LockShared u r w)"
| "lock_step (CallLockExclusive u r) w = snd (LockExclusive u r w)"
| "lock_step (CallLockUpgrade u r) w = snd (LockUpgrade u r w)"
| "lock_step (WakeLock u r) w = snd (Lock_wakeup u r w)"
| "lock_step (WakeLockUpgrade u r) w = snd (LockUpgrade_wakeup u r w)"
| "lock_step (CallUnlock u r) w = snd (Unlock u r w)"

text \<open>What the state \<open>w'\<close> has kept of an aborted transaction \<open>t\<close> of the state \<open>w\<close>: \<open>t\<close> is
  still \<^verbatim>\<open>ABORTED\<close>, its requests in the queue of \<open>rid\<close> are the same, and \<open>rid\<close> is in its
  shared (exclusive) lock set exactly if it was.\<close>

definition residue_kept :: "txn_id_t \<Rightarrow> RID \<Rightarrow> LockManager \<Rightarrow> LockManager \<Rightarrow> bool" where
  "residue_kept t rid w w' \<longleftrightarrow>
     state (txn_map w' t) = ABORTED \<and>
     requests_of t rid w' = requests_of t rid w \<and>
     (rid \<in> shared_lock_set (txn_map w' t)) = (rid \<in> shared_lock_set (txn_map w t)) \<and>
     (rid \<in> exclusive_lock_set (txn_map w' t)) = (rid \<in> exclusive_lock_set (txn_map w t))"

section \<open>Extendible hash table (src/2021/src/container/hash/extendible\_hash\_table.cpp)\<close>

text \<open>
  The table works on a directory page and bucket pages that it reaches through the buffer
  pool. The page classes and the buffer pool interface are not among the sources of this
  component; they are modelled below, each under a note that says so. Page ids handed out
  by \<^verbatim>\<open>NewPage\<close> are natural numbers, and \<^verbatim>\<open>INVALID_PAGE_ID\<close> as the value of
  \<^verbatim>\<open>directory_page_id_\<close> is \<open>None\<close>. Latches and pin counts are not modelled: every
  operation releases what it acquired, and \<^verbatim>\<open>AssertPage\<close> succeeds.
\<close>

type_synonym ht_page_id = nat

definition MAX_BUCKET_DEPTH :: nat where
  "MAX_BUCKET_DEPTH = 9"

datatype ht_error = AssertionFailed | OutOfFuel

text \<open>Modelled from the spec: the directory page
  \<^verbatim>\<open>{ page_id, global_depth, local_depths[2^MAX_DEPTH], bucket_pids[2^MAX_DEPTH] }\<close> and its
  accessors, whose code is not among the sources. The two arrays are functions of the slot
  index; \<^verbatim>\<open>IncrGlobalDepth\<close> doubles the directory by copying the first \<open>2^g\<close> entries
  into the next \<open>2^g\<close>; \<^verbatim>\<open>CanShrink\<close> holds when every local depth is below the global
  depth; the split image of a slot is the slot whose index differs in the highest bit of
  the local depth (the source's comment in \<^verbatim>\<open>Merge\<close> says so).\<close>

record HashTableDirectoryPage =
  dir_page_id :: ht_page_id
  global_depth :: nat
  local_depths :: "nat \<Rightarrow> nat"
  bucket_page_ids :: "nat \<Rightarrow> ht_page_id"

definition GetGlobalDepthMask :: "HashTableDirectoryPage \<Rightarrow> nat" where
  "GetGlobalDepthMask d = 2 ^ global_depth d - 1"

definition GetLocalDepthMask :: "nat \<Rightarrow> HashTableDirectoryPage \<Rightarrow> nat" where
  "GetLocalDepthMask i d = 2 ^ local_depths d i - 1"

definition DirSize :: "HashTableDirectoryPage \<Rightarrow> nat" where
  "DirSize d = 2 ^ global_depth d"

definition SetBucketPageId :: "nat \<Rightarrow> ht_page_id \<Rightarrow> HashTableDirectoryPage \<Rightarrow> HashTableDirectoryPage" where
  "SetBucketPageId i pid d = d\<lparr>bucket_page_ids := (bucket_page_ids d)(i := pid)\<rparr>"

definition SetLocalDepth :: "nat \<Rightarrow> nat \<Rightarrow> HashTableDirectoryPage \<Rightarrow> HashTableDirectoryPage" where
  "SetLocalDepth i ld d = d\<lparr>local_depths := (local_depths d)(i := ld)\<rparr>"

definition IncrLocalDepth :: "nat \<Rightarrow> HashTableDirectoryPage \<Rightarrow> HashTableDirectoryPage" where
  "IncrLocalDepth i d = SetLocalDepth i (local_depths d i + 1) d"

definition DecrLocalDepth :: "nat \<Rightarrow> HashTableDirectoryPage \<Rightarrow> HashTableDirectoryPage" where
  "DecrLocalDepth i d = SetLocalDepth i (local_depths d i - 1) d"

definition IncrGlobalDepth :: "HashTableDirectoryPage \<Rightarrow> HashTableDirectoryPage" where
  "IncrGlobalDepth d =
     (let n = 2 ^ global_depth d in
      d\<lparr>global_depth := global_depth d + 1,
        local_depths := (\<lambda>i. if n \<le> i \<and> i < 2 * n then local_depths d (i - n) else local_depths d i),
        bucket_page_ids := (\<lambda>i. if n \<le> i \<and> i < 2 * n then bucket_page_ids d (i - n)
                                 else bucket_page_ids d i)\<rparr>)"

definition DecrGlobalDepth :: "HashTableDirectoryPage \<Rightarrow> HashTableDirectoryPage" where
  "DecrGlobalDepth d = d\<lparr>global_depth := global_depth d - 1\<rparr>"

definition CanShrink :: "HashTableDirectoryPage \<Rightarrow> bool" where
  "CanShrink d = list_all (\<lambda>i. local_depths d i < global_depth d) [0..<DirSize d]"

definition GetSplitImageIndex :: "nat \<Rightarrow> HashTableDirectoryPage \<Rightarrow> nat" where
  "GetSplitImageIndex i d =
     (if local_depths d i = 0 then i else i XOR 2 ^ (local_depths d i - 1))"

text \<open>Modelled from the spec: a bucket page, whose code is not among the sources. It is
  the list of its readable \<open>(key, value)\<close> pairs; it is full at \<^verbatim>\<open>BUCKET_CAPACITY\<close> pairs;
  \<^verbatim>\<open>Insert\<close> refuses a pair that is already there and a full bucket.\<close>

type_synonym ('k, 'v) bucket = "('k \<times> 'v) list"

definition Bucket_IsFull :: "nat \<Rightarrow> ('k, 'v) bucket \<Rightarrow> bool" where
  "Bucket_IsFull cap b = (length b = cap)"

definition Bucket_IsEmpty :: "('k, 'v) bucket \<Rightarrow> bool" where
  "Bucket_IsEmpty b = (b = [])"

definition Bucket_Insert :: "nat \<Rightarrow> 'k \<Rightarrow> 'v \<Rightarrow> ('k, 'v) bucket \<Rightarrow> bool \<times> ('k, 'v) bucket" where
  "Bucket_Insert cap k v b =
     (if (k, v) \<in> set b \<or> Bucket_IsFull cap b then (False, b) else (True, b @ [(k, v)]))"

definition Bucket_Remove :: "'k \<Rightarrow> 'v \<Rightarrow> ('k, 'v) bucket \<Rightarrow> bool \<times> ('k, 'v) bucket" where
  "Bucket_Remove k v b = ((k, v) \<in> set b, remove1 (k, v) b)"

text \<open>
  The table: its hash function (the 64-bit value of \<^verbatim>\<open>hash_fn_.GetHash\<close>, as a natural
  number), the bucket capacity, \<^verbatim>\<open>directory_page_id_\<close>, and the pages it owns in the
  buffer pool.
\<close>

record ('k, 'v) ExtendibleHashTable =
  hash_fn :: "'k \<Rightarrow> nat"
  bucket_capacity :: nat
  directory_page_id :: "ht_page_id option"
  dir_page :: HashTableDirectoryPage
  bucket_pages :: "ht_page_id \<Rightarrow> ('k, 'v) bucket"
  next_new_page :: ht_page_id

definition ExtendibleHashTable_new :: "('k \<Rightarrow> nat) \<Rightarrow> nat \<Rightarrow> ('k, 'v) ExtendibleHashTable" where
  "ExtendibleHashTable_new h cap =
     \<lparr>hash_fn = h, bucket_capacity = cap, directory_page_id = None,
      dir_page = \<lparr>dir_page_id = 0, global_depth = 0, local_depths = (\<lambda>_. 0),
                  bucket_page_ids = (\<lambda>_. 0)\<rparr>,
      bucket_pages = (\<lambda>_. []), next_new_page = 0\<rparr>"

text \<open>Modelled from the spec: \<^verbatim>\<open>NewPage\<close> and \<^verbatim>\<open>DeletePage\<close> of the buffer pool as
  the table uses them: \<^verbatim>\<open>NewPage\<close> hands out a page id never handed out before, with a
  zeroed page; \<^verbatim>\<open>DeletePage\<close> of an unpinned page succeeds and resets the page.\<close>

definition NewPage :: "('k, 'v) ExtendibleHashTable \<Rightarrow> ht_page_id \<times> ('k, 'v) ExtendibleHashTable" where
  "NewPage s =
     (next_new_page s,
      s\<lparr>next_new_page := next_new_page s + 1,
        bucket_pages := (bucket_pages s)(next_new_page s := [])\<rparr>)"

definition DeletePage :: "ht_page_id \<Rightarrow> ('k, 'v) ExtendibleHashTable \<Rightarrow> ('k, 'v) ExtendibleHashTable" where
  "DeletePage pid s = s\<lparr>bucket_pages := (bucket_pages s)(pid := [])\<rparr>"

text \<open>\<^verbatim>\<open>static_cast<uint32_t>\<close> of the 64-bit hash keeps its low 32 bits.\<close>

definition Hash :: "('k, 'v) ExtendibleHashTable \<Rightarrow> 'k \<Rightarrow> nat" where
  "Hash s key = take_bit 32 (hash_fn s key)"

definition KeyToDirectoryIndex :: "('k, 'v) ExtendibleHashTable \<Rightarrow> 'k \<Rightarrow> HashTableDirectoryPage \<Rightarrow> nat" where
  "KeyToDirectoryIndex s key d = Hash s key AND GetGlobalDepthMask d"

definition KeyToPageId :: "('k, 'v) ExtendibleHashTable \<Rightarrow> 'k \<Rightarrow> HashTableDirectoryPage \<Rightarrow> ht_page_id" where
  "KeyToPageId s key d = bucket_page_ids d (KeyToDirectoryIndex s key d)"

text \<open>\<^verbatim>\<open>FetchDirectoryPage\<close> creates the directory page and bucket 0 at the first call; a
  new page is zeroed, so the new directory has global depth 0 and local depths 0.\<close>

definition FetchDirectoryPage :: "('k, 'v) ExtendibleHashTable \<Rightarrow> ('k, 'v) ExtendibleHashTable" where
  "FetchDirectoryPage s =
     (if directory_page_id s = None then
        (case NewPage s of (dpid, s1) \<Rightarrow>
           (case NewPage s1 of (bpid, s2) \<Rightarrow>
              s2\<lparr>directory_page_id := Some dpid,
                 dir_page := SetBucketPageId 0 bpid
                    \<lparr>dir_page_id = dpid, global_depth = 0, local_depths = (\<lambda>_. 0),
                     bucket_page_ids = (\<lambda>_. 0)\<rparr>\<rparr>))
      else s)"

text \<open>
  The four loops of \<^verbatim>\<open>SplitInsert\<close> that rewrite the directory: from slot \<open>i\<close> downwards
  and upwards in steps of \<^verbatim>\<open>diff = 1 << local_depth\<close> (\<open>2 ^ e\<close>), each slot gets the page
  id and the local depth of slot \<open>src\<close>.
\<close>

function SplitInsert_loop_down ::
  "nat \<Rightarrow> nat \<Rightarrow> ht_page_id \<Rightarrow> nat \<Rightarrow> HashTableDirectoryPage \<Rightarrow> HashTableDirectoryPage" where
  "SplitInsert_loop_down src e pid i d =
     (let d1 = SetBucketPageId i pid d;
          d2 = SetLocalDepth i (local_depths d1 src) d1
      in if i < 2 ^ e then d2 else SplitInsert_loop_down src e pid (i - 2 ^ e) d2)"
  by pat_completeness auto
termination
proof (relation "measure (\<lambda>(src, e, pid, i, d). i)")
  show "wf (measure (\<lambda>(src, e, pid, i, d). i))" by simp
next
  fix src e :: nat and pid :: ht_page_id and i :: nat and d d1 d2 :: HashTableDirectoryPage
  assume "\<not> i < 2 ^ e"
  moreover have "(0::nat) < 2 ^ e" by simp
  ultimately have "i - 2 ^ e < i" by linarith
  then show "((src, e, pid, i - 2 ^ e, d2), (src, e, pid, i, d)) \<in> measure (\<lambda>(src, e, pid, i, d). i)"
    by simp
qed

function SplitInsert_loop_up ::
  "nat \<Rightarrow> nat \<Rightarrow> ht_page_id \<Rightarrow> nat \<Rightarrow> HashTableDirectoryPage \<Rightarrow> HashTableDirectoryPage" where
  "SplitInsert_loop_up src e pid i d =
     (if i < DirSize d then
        (let d1 = SetBucketPageId i pid d;
             d2 = SetLocalDepth i (local_depths d1 src) d1
         in SplitInsert_loop_up src e pid (i + 2 ^ e) d2)
      else d)"
  by pat_completeness auto
termination
proof (relation "measure (\<lambda>(src, e, pid, i, d). DirSize d - i)")
  show "wf (measure (\<lambda>(src, e, pid, i, d). DirSize d - i))" by simp
next
  fix src e :: nat and pid :: ht_page_id and i :: nat and d d1 d2 :: HashTableDirectoryPage
  assume a: "i < DirSize d" and d1: "d1 = SetBucketPageId i pid d"
    and d2: "d2 = SetLocalDepth i (local_depths d1 src) d1"
  have "DirSize d2 = DirSize d"
    by (simp add: d1 d2 DirSize_def SetBucketPageId_def SetLocalDepth_def)
  moreover have "(0::nat) < 2 ^ e" by simp
  ultimately have "DirSize d2 - (i + 2 ^ e) < DirSize d - i" using a by linarith
  then show "((src, e, pid, i + 2 ^ e, d2), (src, e, pid, i, d))
               \<in> measure (\<lambda>(src, e, pid, i, d). DirSize d - i)"
    by simp
qed

declare SplitInsert_loop_down.simps [simp del] SplitInsert_loop_up.simps [simp del]

text \<open>The loop that puts the entries of the split bucket back, with its assertions.\<close>

fun SplitInsert_rehash ::
  "('k, 'v) bucket \<Rightarrow> nat \<Rightarrow> ht_page_id \<Rightarrow> ht_page_id \<Rightarrow> ('k, 'v) ExtendibleHashTable
     \<Rightarrow> ht_error + ('k, 'v) ExtendibleHashTable" where
  "SplitInsert_rehash [] msk split_pid image_pid s = Inr s"
| "SplitInsert_rehash ((k, v) # rest) msk split_pid image_pid s =
     (let target_bucket_index = Hash s k AND msk;
          target_page = bucket_page_ids (dir_page s) target_bucket_index
      in if \<not> (target_page = split_pid \<or> target_page = image_pid) then Inl AssertionFailed
         else
           (let pid = (if target_page = split_pid then split_pid else image_pid) in
            case Bucket_Insert (bucket_capacity s) k v (bucket_pages s pid) of
              (False, _) \<Rightarrow> Inl AssertionFailed
            | (True, b') \<Rightarrow>
                SplitInsert_rehash rest msk split_pid image_pid
                  (s\<lparr>bucket_pages := (bucket_pages s)(pid := b')\<rparr>)))"

text \<open>The rewriting of the directory in \<^verbatim>\<open>SplitInsert\<close>, from \<^verbatim>\<open>IncrLocalDepth\<close> to the
  end of the four loops.\<close>

definition SplitInsert_directory ::
  "nat \<Rightarrow> ht_page_id \<Rightarrow> ht_page_id \<Rightarrow> HashTableDirectoryPage \<Rightarrow> HashTableDirectoryPage" where
  "SplitInsert_directory split_bucket_index split_bucket_page_id image_bucket_page d1 =
     (let d2 = IncrLocalDepth split_bucket_index d1;
          split_image_bucket_index = GetSplitImageIndex split_bucket_index d2;
          d3 = SetLocalDepth split_image_bucket_index (local_depths d2 split_bucket_index) d2;
          d4 = SetBucketPageId split_image_bucket_index image_bucket_page d3;
          e = local_depths d4 split_bucket_index;
          d5 = SplitInsert_loop_down split_bucket_index e split_bucket_page_id split_bucket_index d4;
          d6 = SplitInsert_loop_up split_bucket_index e split_bucket_page_id split_bucket_index d5;
          d7 = SplitInsert_loop_down split_bucket_index e image_bucket_page split_image_bucket_index d6
      in SplitInsert_loop_up split_bucket_index e image_bucket_page split_image_bucket_index d7)"

text \<open>\<^verbatim>\<open>SplitInsert\<close> up to its last statement, \<^verbatim>\<open>return Insert(...)\<close>: the result says
  whether that statement is reached (\<open>True\<close>) or the bucket cannot be split and
  \<^verbatim>\<open>SplitInsert\<close> returns false.\<close>

definition SplitInsert_split ::
  "'k \<Rightarrow> ('k, 'v) ExtendibleHashTable \<Rightarrow> ht_error + (bool \<times> ('k, 'v) ExtendibleHashTable)" where
  "SplitInsert_split key s0 =
     (let s = FetchDirectoryPage s0;
          d0 = dir_page s;
          split_bucket_index = KeyToDirectoryIndex s key d0;
          split_bucket_depth = local_depths d0 split_bucket_index
      in if split_bucket_depth \<ge> MAX_BUCKET_DEPTH then Inr (False, s)
         else
           (let d1 = (if split_bucket_depth = global_depth d0 then IncrGlobalDepth d0 else d0);
                split_bucket_page_id = KeyToPageId s key d1;
                origin_array = bucket_pages s split_bucket_page_id;
                s1 = s\<lparr>bucket_pages := (bucket_pages s)(split_bucket_page_id := [])\<rparr>
            in case NewPage s1 of (image_bucket_page, s2) \<Rightarrow>
              (let d8 = SplitInsert_directory split_bucket_index split_bucket_page_id image_bucket_page d1;
                   msk = GetLocalDepthMask split_bucket_index d8
               in case SplitInsert_rehash origin_array msk split_bucket_page_id image_bucket_page
                         (s2\<lparr>dir_page := d8\<rparr>) of
                    Inl err \<Rightarrow> Inl err
                  | Inr s3 \<Rightarrow> Inr (True, s3))))"

text \<open>
  \<^verbatim>\<open>Insert\<close>, which calls \<^verbatim>\<open>SplitInsert\<close> on a full bucket, which calls \<^verbatim>\<open>Insert\<close>
  again after the split. The recursion is bounded by fuel: one unit per call of
  \<^verbatim>\<open>Insert\<close>.
\<close>

primrec Insert_fuel ::
    "nat \<Rightarrow> 'k \<Rightarrow> 'v \<Rightarrow> ('k, 'v) ExtendibleHashTable \<Rightarrow> ht_error + (bool \<times> ('k, 'v) ExtendibleHashTable)"
  where
  "Insert_fuel 0 key value s0 = Inl OutOfFuel"
| "Insert_fuel (Suc n) key value s0 =
     (let s = FetchDirectoryPage s0;
          bucket_page_id = KeyToPageId s key (dir_page s);
          bucket = bucket_pages s bucket_page_id
      in if \<not> Bucket_IsFull (bucket_capacity s) bucket then
           (case Bucket_Insert (bucket_capacity s) key value bucket of
              (res, b') \<Rightarrow> Inr (res, s\<lparr>bucket_pages := (bucket_pages s)(bucket_page_id := b')\<rparr>))
         else
           (case SplitInsert_split key s of
              Inl err \<Rightarrow> Inl err
            | Inr (False, s') \<Rightarrow> Inr (False, s')
            | Inr (True, s') \<Rightarrow> Insert_fuel n key value s'))"

text \<open>A bucket can be split at most \<^verbatim>\<open>MAX_BUCKET_DEPTH\<close> times.\<close>

definition HT_Insert ::
  "'k \<Rightarrow> 'v \<Rightarrow> ('k, 'v) ExtendibleHashTable \<Rightarrow> ht_error + (bool \<times> ('k, 'v) ExtendibleHashTable)" where
  "HT_Insert key value s = Insert_fuel (MAX_BUCKET_DEPTH + 2) key value s"

text \<open>The loop of \<^verbatim>\<open>Merge\<close> over all slots, and its shrinking loop.\<close>

definition Merge_relink_step ::
  "nat \<Rightarrow> ht_page_id \<Rightarrow> ht_page_id \<Rightarrow> nat \<Rightarrow> HashTableDirectoryPage \<Rightarrow> HashTableDirectoryPage" where
  "Merge_relink_step target_bucket_index target_pid image_pid i d =
     (if bucket_page_ids d i = target_pid \<or> bucket_page_ids d i = image_pid
      then (let d1 = SetBucketPageId i image_pid d
            in SetLocalDepth i (local_depths d1 target_bucket_index) d1)
      else d)"

definition Merge_relink :: "nat \<Rightarrow> ht_page_id \<Rightarrow> ht_page_id \<Rightarrow> HashTableDirectoryPage \<Rightarrow> HashTableDirectoryPage" where
  "Merge_relink target_bucket_index target_pid image_pid d =
     fold (Merge_relink_step target_bucket_index target_pid image_pid) [0..<DirSize d] d"

function Merge_shrink :: "HashTableDirectoryPage \<Rightarrow> HashTableDirectoryPage" where
  "Merge_shrink d = (if CanShrink d then Merge_shrink (DecrGlobalDepth d) else d)"
  by pat_completeness auto
termination
proof (relation "measure global_depth")
  show "wf (measure global_depth)" by simp
next
  fix d :: HashTableDirectoryPage
  assume "CanShrink d"
  then have "local_depths d 0 < global_depth d"
    by (simp add: CanShrink_def DirSize_def list_all_iff)
  then show "(DecrGlobalDepth d, d) \<in> measure global_depth"
    by (simp add: DecrGlobalDepth_def)
qed

declare Merge_shrink.simps [simp del]

definition Merge :: "nat \<Rightarrow> ('k, 'v) ExtendibleHashTable \<Rightarrow> ht_error + ('k, 'v) ExtendibleHashTable" where
  "Merge target_bucket_index s0 =
     (let s = FetchDirectoryPage s0;
          d = dir_page s
      in if target_bucket_index \<ge> DirSize d then Inr s
         else
           (let target_bucket_page_id = bucket_page_ids d target_bucket_index;
                image_bucket_index = GetSplitImageIndex target_bucket_index d;
                local_depth = local_depths d target_bucket_index
            in if local_depth = 0 then Inr s
               else if local_depth \<noteq> local_depths d image_bucket_index then Inr s
               else if \<not> Bucket_IsEmpty (bucket_pages s target_bucket_page_id) then Inr s
               else
                 (let s1 = DeletePage target_bucket_page_id s;
                      image_bucket_page_id = bucket_page_ids d image_bucket_index;
                      d1 = SetBucketPageId target_bucket_index image_bucket_page_id d;
                      d2 = DecrLocalDepth target_bucket_index d1;
                      d3 = DecrLocalDepth image_bucket_index d2
                  in if local_depths d3 target_bucket_index \<noteq> local_depths d3 image_bucket_index
                     then Inl AssertionFailed
                     else
                       (let d4 = Merge_relink target_bucket_index target_bucket_page_id
                                   image_bucket_page_id d3
                        in Inr (s1\<lparr>dir_page := Merge_shrink d4\<rparr>)))))"

definition HT_Remove ::
  "'k \<Rightarrow> 'v \<Rightarrow> ('k, 'v) ExtendibleHashTable \<Rightarrow> ht_error + (bool \<times> ('k, 'v) ExtendibleHashTable)" where
  "HT_Remove key value s0 =
     (let s = FetchDirectoryPage s0;
          d = dir_page s;
          bucket_page_id = KeyToPageId s key d;
          bucket_index = KeyToDirectoryIndex s key d
      in case Bucket_Remove key value (bucket_pages s bucket_page_id) of
           (res, b') \<Rightarrow>
             (let s1 = s\<lparr>bucket_pages := (bucket_pages s)(bucket_page_id := b')\<rparr>
              in if Bucket_IsEmpty b' then
                   (case Merge bucket_index s1 of
                      Inl err \<Rightarrow> Inl err
                    | Inr s2 \<Rightarrow> Inr (res, s2))
                 else Inr (res, s1)))"

text \<open>The directory invariant of the spec: every local depth is at most the global depth,
  and two slots hold the same bucket page id exactly when their indices agree on the low
  \<open>local_depth\<close> bits of the first.\<close>

definition dir_inv :: "HashTableDirectoryPage \<Rightarrow> bool" where
  "dir_inv d \<longleftrightarrow>
     (\<forall>i < 2 ^ global_depth d.
        local_depths d i \<le> global_depth d \<and>
        (\<forall>j < 2 ^ global_depth d.
           bucket_page_ids d i = bucket_page_ids d j \<longleftrightarrow>
           take_bit (local_depths d i) i = take_bit (local_depths d i) j))"

text \<open>The invariant of the table: the directory exists and satisfies the directory
  invariant, and every bucket page id in it was handed out by \<^verbatim>\<open>NewPage\<close>.\<close>

definition ht_inv :: "('k, 'v) ExtendibleHashTable \<Rightarrow> bool" where
  "ht_inv s \<longleftrightarrow>
     directory_page_id s \<noteq> None \<and> dir_inv (dir_page s) \<and>
     (\<forall>i < 2 ^ global_depth (dir_page s). bucket_page_ids (dir_page s) i < next_new_page s)"

text \<open>Before the first call the directory does not exist yet.\<close>

definition ht_pre :: "('k, 'v) ExtendibleHashTable \<Rightarrow> bool" where
  "ht_pre s \<longleftrightarrow> (directory_page_id s = None \<and> dir_inv (dir_page s)) \<or> ht_inv s"

text \<open>A call of the table, and a sequence of calls from a state.\<close>

datatype ('k, 'v) ht_op = OpInsert 'k 'v | OpRemove 'k 'v

fun ht_apply :: "('k, 'v) ht_op \<Rightarrow> ('k, 'v) ExtendibleHashTable
                   \<Rightarrow> ht_error + (bool \<times> ('k, 'v) ExtendibleHashTable)" where
  "ht_apply (OpInsert k v) s = HT_Insert k v s"
| "ht_apply (OpRemove k v) s = HT_Remove k v s"

fun ht_run :: "('k, 'v) ht_op list \<Rightarrow> ('k, 'v) ExtendibleHashTable
                 \<Rightarrow> ht_error + ('k, 'v) ExtendibleHashTable" where
  "ht_run [] s = Inr s"
| "ht_run (opn # ops) s =
     (case ht_apply opn s of Inl err \<Rightarrow> Inl err | Inr (_, s') \<Rightarrow> ht_run ops s')"

text \<open>A run on a table of bucket capacity 2 with the identity hash: three inserts, the
  third of which splits bucket 0 twice and doubles the directory twice, and a remove that
  empties a bucket, merges it with its split image and halves the directory.\<close>

definition ht_scenario :: "(nat, nat) ht_op list" where
  "ht_scenario = [OpInsert 0 0, OpInsert 4 4, OpInsert 2 2, OpRemove 2 2]"

section \<open>B+-tree index\<close>

text \<open>
  The tree of \<^verbatim>\<open>b_plus_tree.cpp\<close>, run by one thread: latches are left out, pins are kept.
  Keys are ordered by \<open>\<le>\<close> (the injected comparator) and have a zero, the key a zeroed page
  holds. A descent may follow child pointers for ever in a malformed tree, so the descent and
  the upward recursion of \<^verbatim>\<open>InsertIntoParent\<close> take fuel.
\<close>

datatype bpt_error = PageNotResident | MalformedPage | BadArguments | FuelExhausted

datatype Operation = FIND | INSERT | DELETE

text \<open>Modelled from the spec: the page overlays \<^verbatim>\<open>BPlusTreePage\<close>, \<^verbatim>\<open>BPlusTreeLeafPage\<close>
  and \<^verbatim>\<open>BPlusTreeInternalPage\<close> (their classes are not among the sources). A leaf holds
  \<open>(key, value)\<close> pairs and the id of the next leaf; an internal page holds \<open>(key, child)\<close>
  pairs, the key of pair 0 being a dummy. The size of a page is the length of its array.\<close>

datatype ('k, 'v) BPlusTreePage =
    LeafPage (GetPageId: page_id_t) (GetParentPageId: page_id_t) (GetMaxSize: int)
             (GetNextPageId: page_id_t) (leaf_array: "('k \<times> 'v) list")
  | InternalPage (GetPageId: page_id_t) (GetParentPageId: page_id_t) (GetMaxSize: int)
                 (internal_array: "('k \<times> page_id_t) list")

fun IsLeafPage :: "('k, 'v) BPlusTreePage \<Rightarrow> bool" where
  "IsLeafPage (LeafPage _ _ _ _ _) = True"
| "IsLeafPage (InternalPage _ _ _ _) = False"

definition IsRootPage :: "('k, 'v) BPlusTreePage \<Rightarrow> bool" where
  "IsRootPage node \<longleftrightarrow> GetParentPageId node = INVALID_PAGE_ID"

fun GetSize :: "('k, 'v) BPlusTreePage \<Rightarrow> int" where
  "GetSize (LeafPage _ _ _ _ arr) = int (length arr)"
| "GetSize (InternalPage _ _ _ arr) = int (length arr)"

text \<open>Modelled from the spec: internal \<open>min_size = \<lceil>max_size / 2\<rceil>\<close>, leaf
  \<open>min_size = \<lceil>(max_size - 1) / 2\<rceil>\<close>.\<close>

fun GetMinSize :: "('k, 'v) BPlusTreePage \<Rightarrow> int" where
  "GetMinSize (LeafPage _ _ m _ _) = m div 2"
| "GetMinSize (InternalPage _ _ m _) = (m + 1) div 2"

fun SetParentPageId :: "page_id_t \<Rightarrow> ('k, 'v) BPlusTreePage \<Rightarrow> ('k, 'v) BPlusTreePage" where
  "SetParentPageId p (LeafPage i _ m nx arr) = LeafPage i p m nx arr"
| "SetParentPageId p (InternalPage i _ m arr) = InternalPage i p m arr"

text \<open>Modelled from the spec: the leaf's \<^verbatim>\<open>KeyIndex\<close> is the index of the first key \<open>\<ge> k\<close>
  (the size when there is none); \<^verbatim>\<open>Lookup\<close> finds the key there or nowhere; \<^verbatim>\<open>Insert\<close> with
  an existing key changes nothing and returns the size, and otherwise puts the pair at
  \<^verbatim>\<open>KeyIndex\<close> and returns the new size.\<close>

definition KeyIndex :: "('k::linorder \<times> 'v) list \<Rightarrow> 'k \<Rightarrow> nat" where
  "KeyIndex arr key = length (takeWhile (\<lambda>(k, _). k < key) arr)"

definition Leaf_Lookup :: "('k::linorder \<times> 'v) list \<Rightarrow> 'k \<Rightarrow> 'v option" where
  "Leaf_Lookup arr key =
     (let idx = KeyIndex arr key in
      if idx < length arr \<and> fst (arr ! idx) = key then Some (snd (arr ! idx)) else None)"

definition Leaf_Insert :: "('k::linorder \<times> 'v) list \<Rightarrow> 'k \<Rightarrow> 'v \<Rightarrow> ('k \<times> 'v) list" where
  "Leaf_Insert arr key value =
     (let idx = KeyIndex arr key in
      if idx < length arr \<and> fst (arr ! idx) = key then arr
      else take idx arr @ (key, value) # drop idx arr)"

text \<open>Modelled from the spec: the internal page's \<^verbatim>\<open>Lookup\<close> returns the child of the last
  key \<open>\<le> k\<close> among the pairs from index 1 on, and child 0 when there is none;
  \<^verbatim>\<open>InsertNodeAfter\<close> puts the new pair right after the pair that holds the old child;
  \<^verbatim>\<open>PopulateNewRoot\<close> fills a fresh root with the old child under the dummy key and the new
  child under the pushed key.\<close>

definition Internal_Lookup :: "('k::linorder \<times> page_id_t) list \<Rightarrow> 'k \<Rightarrow> page_id_t option" where
  "Internal_Lookup arr key =
     (if arr = [] then None
      else Some (snd (arr ! length (takeWhile (\<lambda>(k, _). k \<le> key) (tl arr)))))"

definition ValueAt :: "('k \<times> page_id_t) list \<Rightarrow> int \<Rightarrow> page_id_t option" where
  "ValueAt arr i = (if 0 \<le> i \<and> i < int (length arr) then Some (snd (arr ! nat i)) else None)"

definition ValueIndex :: "('k \<times> page_id_t) list \<Rightarrow> page_id_t \<Rightarrow> int" where
  "ValueIndex arr v =
     (let n = length (takeWhile (\<lambda>(_, c). c \<noteq> v) arr) in
      if n < length arr then int n else -1)"

definition InsertNodeAfter ::
  "('k \<times> page_id_t) list \<Rightarrow> page_id_t \<Rightarrow> 'k \<Rightarrow> page_id_t \<Rightarrow> ('k \<times> page_id_t) list" where
  "InsertNodeAfter arr old_value new_key new_value =
     (let idx = nat (ValueIndex arr old_value + 1) in
      take idx arr @ (new_key, new_value) # drop idx arr)"

definition PopulateNewRoot :: "page_id_t \<Rightarrow> 'k::zero \<Rightarrow> page_id_t \<Rightarrow> ('k \<times> page_id_t) list" where
  "PopulateNewRoot old_value new_key new_value = [(0, old_value), (new_key, new_value)]"

text \<open>The tree with the part of the buffer pool it sees. Modelled from the spec: the buffer
  pool of this year's tree is not among the sources; it is taken large enough never to evict
  or to refuse a frame, so a page is its content, its pin count and its dirty flag.
  \<^verbatim>\<open>page_set\<close> is the page set of the transaction that runs the call; \<^verbatim>\<open>header_record\<close> is
  the root page id the header page holds for this index.\<close>

record ('k, 'v) BPlusTree =
  root_page_id :: page_id_t
  leaf_max_size :: int
  internal_max_size :: int
  bpt_pages :: "page_id_t \<Rightarrow> ('k, 'v) BPlusTreePage option"
  bpt_pin_count :: "page_id_t \<Rightarrow> nat"
  bpt_is_dirty :: "page_id_t \<Rightarrow> bool"
  bpt_next_page_id :: page_id_t
  header_record :: "page_id_t option"
  page_set :: "page_id_t list"

definition HEADER_PAGE_ID :: page_id_t where
  "HEADER_PAGE_ID = 0"

definition BPlusTree_new :: "int \<Rightarrow> int \<Rightarrow> ('k, 'v) BPlusTree" where
  "BPlusTree_new leaf_max internal_max =
     \<lparr>root_page_id = INVALID_PAGE_ID, leaf_max_size = leaf_max, internal_max_size = internal_max,
      bpt_pages = (\<lambda>_. None), bpt_pin_count = (\<lambda>_. 0), bpt_is_dirty = (\<lambda>_. False),
      bpt_next_page_id = 1, header_record = None, page_set = []\<rparr>"

text \<open>Modelled from the spec: \<^verbatim>\<open>FetchPage\<close> pins the page and returns it, \<^verbatim>\<open>UnpinPage\<close>
  does nothing on a page that is not pinned and otherwise unpins it and keeps or sets its dirty
  flag, \<^verbatim>\<open>NewPage\<close> hands out the next page id with the page pinned once.\<close>

definition BPT_FetchPage ::
  "page_id_t \<Rightarrow> ('k, 'v) BPlusTree \<Rightarrow> bpt_error + (('k, 'v) BPlusTreePage \<times> ('k, 'v) BPlusTree)" where
  "BPT_FetchPage pid s =
     (case bpt_pages s pid of
        None \<Rightarrow> Inl PageNotResident
      | Some node \<Rightarrow>
          Inr (node, s\<lparr>bpt_pin_count := (bpt_pin_count s)(pid := bpt_pin_count s pid + 1)\<rparr>))"

definition BPT_UnpinPage :: "page_id_t \<Rightarrow> bool \<Rightarrow> ('k, 'v) BPlusTree \<Rightarrow> ('k, 'v) BPlusTree" where
  "BPT_UnpinPage pid dirty s =
     (if bpt_pin_count s pid = 0 then s
      else s\<lparr>bpt_pin_count := (bpt_pin_count s)(pid := bpt_pin_count s pid - 1),
             bpt_is_dirty := (bpt_is_dirty s)(pid := bpt_is_dirty s pid \<or> dirty)\<rparr>)"

definition BPT_NewPage :: "('k, 'v) BPlusTree \<Rightarrow> page_id_t \<times> ('k, 'v) BPlusTree" where
  "BPT_NewPage s =
     (let pid = bpt_next_page_id s in
      (pid, s\<lparr>bpt_next_page_id := pid + 1,
              bpt_pin_count := (bpt_pin_count s)(pid := 1),
              bpt_is_dirty := (bpt_is_dirty s)(pid := False)\<rparr>))"

text \<open>A write through a pointer into the data of the page \<open>pid\<close>.\<close>

definition SetPage ::
  "page_id_t \<Rightarrow> ('k, 'v) BPlusTreePage \<Rightarrow> ('k, 'v) BPlusTree \<Rightarrow> ('k, 'v) BPlusTree" where
  "SetPage pid node s = s\<lparr>bpt_pages := (bpt_pages s)(pid \<mapsto> node)\<rparr>"

definition IsEmpty :: "('k, 'v) BPlusTree \<Rightarrow> bool" where
  "IsEmpty s \<longleftrightarrow> root_page_id s = INVALID_PAGE_ID"

definition IsSafe :: "('k, 'v) BPlusTreePage \<Rightarrow> Operation \<Rightarrow> bool" where
  "IsSafe node op =
     (if IsRootPage node then
        (op = INSERT \<and> GetSize node < GetMaxSize node - 1) \<or> (op = DELETE \<and> GetSize node > 2)
      else if op = INSERT then GetSize node < GetMaxSize node - 1
      else if op = DELETE then GetSize node > GetMinSize node
      else True)"

definition UnlockPages :: "('k, 'v) BPlusTree \<Rightarrow> ('k, 'v) BPlusTree" where
  "UnlockPages s = s\<lparr>page_set := []\<rparr>"

definition UnlockUnpinPages :: "('k, 'v) BPlusTree \<Rightarrow> ('k, 'v) BPlusTree" where
  "UnlockUnpinPages s = (fold (\<lambda>pid. BPT_UnpinPage pid False) (page_set s) s)\<lparr>page_set := []\<rparr>"

text \<open>Modelled from the spec: the header page holds the root page id under the index name;
  \<^verbatim>\<open>InsertRecord\<close> adds the record when there is none, \<^verbatim>\<open>UpdateRecord\<close> rewrites the one
  there is.\<close>

definition UpdateRootPageId :: "int \<Rightarrow> ('k, 'v) BPlusTree \<Rightarrow> ('k, 'v) BPlusTree" where
  "UpdateRootPageId insert_record s =
     (let s1 = s\<lparr>bpt_pin_count :=
                   (bpt_pin_count s)(HEADER_PAGE_ID := bpt_pin_count s HEADER_PAGE_ID + 1)\<rparr>;
          s2 = (if insert_record \<noteq> 0
                then (if header_record s1 = None
                      then s1\<lparr>header_record := Some (root_page_id s1)\<rparr> else s1)
                else (if header_record s1 \<noteq> None
                      then s1\<lparr>header_record := Some (root_page_id s1)\<rparr> else s1))
      in BPT_UnpinPage HEADER_PAGE_ID True s2)"

text \<open>The loop of \<^verbatim>\<open>FindLeafPageByOperation\<close>, from the page \<open>pid\<close> with content \<open>node\<close>.\<close>

fun FindLeaf_loop ::
  "nat \<Rightarrow> 'k::linorder \<Rightarrow> Operation \<Rightarrow> bool \<Rightarrow> bool \<Rightarrow> page_id_t \<Rightarrow> ('k, 'v) BPlusTreePage
     \<Rightarrow> ('k, 'v) BPlusTree
     \<Rightarrow> bpt_error + (page_id_t \<times> ('k, 'v) BPlusTreePage \<times> ('k, 'v) BPlusTree)" where
  "FindLeaf_loop 0 key op leftMost rightMost pid node s = Inl FuelExhausted"
| "FindLeaf_loop (Suc n) key op leftMost rightMost pid node s =
     (case node of
        LeafPage _ _ _ _ _ \<Rightarrow> Inr (pid, node, s)
      | InternalPage _ _ _ arr \<Rightarrow>
          (case (if leftMost then ValueAt arr 0
                 else if rightMost then ValueAt arr (GetSize node - 1)
                 else Internal_Lookup arr key) of
             None \<Rightarrow> Inl MalformedPage
           | Some child_node_page_id \<Rightarrow>
               (case BPT_FetchPage child_node_page_id s of
                  Inl err \<Rightarrow> Inl err
                | Inr (child_node, s1) \<Rightarrow>
                    let s2 = (if op = FIND then BPT_UnpinPage pid False s1
                              else let s' = s1\<lparr>page_set := page_set s1 @ [pid]\<rparr> in
                                   if IsSafe child_node op then UnlockUnpinPages s' else s')
                    in FindLeaf_loop n key op leftMost rightMost
                         child_node_page_id child_node s2)))"

definition FindLeafPageByOperation ::
  "nat \<Rightarrow> 'k::linorder \<Rightarrow> Operation \<Rightarrow> bool \<Rightarrow> bool \<Rightarrow> ('k, 'v) BPlusTree
     \<Rightarrow> bpt_error + (page_id_t \<times> ('k, 'v) BPlusTreePage \<times> ('k, 'v) BPlusTree)" where
  "FindLeafPageByOperation n key op leftMost rightMost s =
     (if op = FIND \<and> leftMost \<and> rightMost then Inl BadArguments
      else case BPT_FetchPage (root_page_id s) s of
             Inl err \<Rightarrow> Inl err
           | Inr (node, s1) \<Rightarrow> FindLeaf_loop n key op leftMost rightMost (root_page_id s) node s1)"

text \<open>\<^verbatim>\<open>GetValue\<close>: the value found, if any, stands for the result vector and the returned
  flag.\<close>

definition GetValue ::
  "nat \<Rightarrow> 'k::linorder \<Rightarrow> ('k, 'v) BPlusTree \<Rightarrow> bpt_error + ('v option \<times> ('k, 'v) BPlusTree)" where
  "GetValue n key s =
     (case FindLeafPageByOperation n key FIND False False s of
        Inl err \<Rightarrow> Inl err
      | Inr (leaf_pid, leaf_node, s1) \<Rightarrow>
          (case leaf_node of
             InternalPage _ _ _ _ \<Rightarrow> Inl MalformedPage
           | LeafPage _ _ _ _ arr \<Rightarrow>
               Inr (Leaf_Lookup arr key, BPT_UnpinPage leaf_pid False s1)))"

definition StartNewTree :: "'k::linorder \<Rightarrow> 'v \<Rightarrow> ('k, 'v) BPlusTree \<Rightarrow> ('k, 'v) BPlusTree" where
  "StartNewTree key value s =
     (let (new_page_id, s1) = BPT_NewPage s;
          s2 = UpdateRootPageId 1 (s1\<lparr>root_page_id := new_page_id\<rparr>);
          root_node = LeafPage new_page_id INVALID_PAGE_ID (leaf_max_size s2) INVALID_PAGE_ID
                        (Leaf_Insert [] key value)
      in BPT_UnpinPage new_page_id True (SetPage new_page_id root_node s2))"

text \<open>Modelled from the spec: \<^verbatim>\<open>MoveHalfTo\<close> moves the upper half of the pairs to the
  new sibling; for an internal page every moved child gets the sibling as its parent, through
  the buffer pool.\<close>

fun MoveHalfTo_children ::
  "page_id_t list \<Rightarrow> page_id_t \<Rightarrow> ('k, 'v) BPlusTree \<Rightarrow> bpt_error + ('k, 'v) BPlusTree" where
  "MoveHalfTo_children [] recipient s = Inr s"
| "MoveHalfTo_children (c # cs) recipient s =
     (case BPT_FetchPage c s of
        Inl err \<Rightarrow> Inl err
      | Inr (child, s1) \<Rightarrow>
          MoveHalfTo_children cs recipient
            (BPT_UnpinPage c True (SetPage c (SetParentPageId recipient child) s1)))"

text \<open>\<^verbatim>\<open>Split\<close> of the node in page \<open>pid\<close>; the new sibling stays pinned.\<close>

definition Split ::
  "page_id_t \<Rightarrow> ('k, 'v) BPlusTree \<Rightarrow> bpt_error + (page_id_t \<times> ('k, 'v) BPlusTree)" where
  "Split pid s =
     (case bpt_pages s pid of
        None \<Rightarrow> Inl PageNotResident
      | Some node \<Rightarrow>
          let (new_page_id, s1) = BPT_NewPage s in
          (case node of
             LeafPage i p m nx arr \<Rightarrow>
               let start = length arr div 2;
                   new_leaf_node = LeafPage new_page_id p (leaf_max_size s1) nx (drop start arr);
                   old_leaf_node = LeafPage i p m new_page_id (take start arr)
               in Inr (new_page_id,
                       SetPage pid old_leaf_node (SetPage new_page_id new_leaf_node s1))
           | InternalPage i p m arr \<Rightarrow>
               let start = length arr div 2;
                   new_internal_node =
                     InternalPage new_page_id p (internal_max_size s1) (drop start arr);
                   old_internal_node = InternalPage i p m (take start arr);
                   s2 = SetPage pid old_internal_node (SetPage new_page_id new_internal_node s1)
               in (case MoveHalfTo_children (map snd (drop start arr)) new_page_id s2 of
                     Inl err \<Rightarrow> Inl err
                   | Inr s3 \<Rightarrow> Inr (new_page_id, s3))))"

text \<open>\<^verbatim>\<open>KeyAt(0)\<close> of the node in page \<open>pid\<close>.\<close>

definition KeyAt0 :: "page_id_t \<Rightarrow> ('k, 'v) BPlusTree \<Rightarrow> 'k option" where
  "KeyAt0 pid s =
     (case bpt_pages s pid of
        Some (LeafPage _ _ _ _ (kv # _)) \<Rightarrow> Some (fst kv)
      | Some (InternalPage _ _ _ (kv # _)) \<Rightarrow> Some (fst kv)
      | _ \<Rightarrow> None)"

fun InsertIntoParent ::
  "nat \<Rightarrow> page_id_t \<Rightarrow> 'k::{linorder, zero} \<Rightarrow> page_id_t \<Rightarrow> ('k, 'v) BPlusTree
     \<Rightarrow> bpt_error + ('k, 'v) BPlusTree" where
  "InsertIntoParent 0 old_pid key new_pid s = Inl FuelExhausted"
| "InsertIntoParent (Suc n) old_pid key new_pid s =
     (case (bpt_pages s old_pid, bpt_pages s new_pid) of
        (Some old_node, Some new_node) \<Rightarrow>
          if IsRootPage old_node then
            let (new_page_id, s1) = BPT_NewPage s;
                s2 = s1\<lparr>root_page_id := new_page_id\<rparr>;
                new_root_node =
                  InternalPage new_page_id INVALID_PAGE_ID (internal_max_size s2)
                    (PopulateNewRoot (GetPageId old_node) key (GetPageId new_node));
                s3 = SetPage new_page_id new_root_node s2;
                s4 = SetPage old_pid (SetParentPageId new_page_id old_node) s3;
                s5 = SetPage new_pid (SetParentPageId new_page_id new_node) s4;
                s6 = BPT_UnpinPage new_page_id True s5;
                s7 = UpdateRootPageId 0 s6
            in Inr (UnlockPages s7)
          else
            (let parent_pid = GetParentPageId old_node in
             case BPT_FetchPage parent_pid s of
               Inl err \<Rightarrow> Inl err
             | Inr (parent_node, s1) \<Rightarrow>
                 (case parent_node of
                    LeafPage _ _ _ _ _ \<Rightarrow> Inl MalformedPage
                  | InternalPage i p m arr \<Rightarrow>
                      let parent_node' =
                            InternalPage i p m
                              (InsertNodeAfter arr (GetPageId old_node) key (GetPageId new_node));
                          s2 = SetPage parent_pid parent_node' s1
                      in if GetSize parent_node' < GetMaxSize parent_node'
                         then Inr (BPT_UnpinPage parent_pid True (UnlockPages s2))
                         else (case Split parent_pid s2 of
                                 Inl err \<Rightarrow> Inl err
                               | Inr (new_parent_pid, s3) \<Rightarrow>
                                   (case KeyAt0 new_parent_pid s3 of
                                      None \<Rightarrow> Inl MalformedPage
                                    | Some k0 \<Rightarrow>
                                        (case InsertIntoParent n parent_pid k0 new_parent_pid s3 of
                                           Inl err \<Rightarrow> Inl err
                                         | Inr s4 \<Rightarrow>
                                             Inr (BPT_UnpinPage new_parent_pid True
                                                    (BPT_UnpinPage parent_pid True s4)))))))
      | _ \<Rightarrow> Inl PageNotResident)"

definition InsertIntoLeaf ::
  "nat \<Rightarrow> 'k::{linorder, zero} \<Rightarrow> 'v \<Rightarrow> ('k, 'v) BPlusTree
     \<Rightarrow> bpt_error + (bool \<times> ('k, 'v) BPlusTree)" where
  "InsertIntoLeaf n key value s =
     (case FindLeafPageByOperation n key INSERT False False s of
        Inl err \<Rightarrow> Inl err
      | Inr (leaf_pid, leaf_node, s1) \<Rightarrow>
          (case leaf_node of
             InternalPage _ _ _ _ \<Rightarrow> Inl MalformedPage
           | LeafPage i p m nx arr \<Rightarrow>
               let size = GetSize leaf_node;
                   leaf_node' = LeafPage i p m nx (Leaf_Insert arr key value);
                   new_size = GetSize leaf_node';
                   s2 = SetPage leaf_pid leaf_node' s1
               in if new_size = size
                  then Inr (False, BPT_UnpinPage leaf_pid False (UnlockUnpinPages s2))
                  else if new_size < GetMaxSize leaf_node'
                  then Inr (True, BPT_UnpinPage leaf_pid True s2)
                  else (case Split leaf_pid s2 of
                          Inl err \<Rightarrow> Inl err
                        | Inr (new_leaf_pid, s3) \<Rightarrow>
                            (case KeyAt0 new_leaf_pid s3 of
                               None \<Rightarrow> Inl MalformedPage
                             | Some k0 \<Rightarrow>
                                 (case InsertIntoParent n leaf_pid k0 new_leaf_pid s3 of
                                    Inl err \<Rightarrow> Inl err
                                  | Inr s4 \<Rightarrow>
                                      Inr (True, BPT_UnpinPage new_leaf_pid True
                                                   (BPT_UnpinPage leaf_pid True s4)))))))"

definition BPT_Insert ::
  "nat \<Rightarrow> 'k::{linorder, zero} \<Rightarrow> 'v \<Rightarrow> ('k, 'v) BPlusTree
     \<Rightarrow> bpt_error + (bool \<times> ('k, 'v) BPlusTree)" where
  "BPT_Insert n key value s =
     (if IsEmpty s then Inr (True, StartNewTree key value s)
      else InsertIntoLeaf n key value s)"

text \<open>A sequence of inserts from a state, each with fuel \<open>n\<close>.\<close>

fun bpt_inserts ::
  "nat \<Rightarrow> ('k::{linorder, zero} \<times> 'v) list \<Rightarrow> ('k, 'v) BPlusTree
     \<Rightarrow> bpt_error + ('k, 'v) BPlusTree" where
  "bpt_inserts n [] s = Inr s"
| "bpt_inserts n ((k, v) # kvs) s =
     (case BPT_Insert n k v s of Inl err \<Rightarrow> Inl err | Inr (_, s') \<Rightarrow> bpt_inserts n kvs s')"

text \<open>The state \<open>s\<close> with every page of \<open>held\<close> pinned once more for each of its
  occurrences, and with page set \<open>ps\<close>: what a descent that holds these pages has made of
  \<open>s\<close>.\<close>

definition with_pins ::
  "page_id_t list \<Rightarrow> page_id_t list \<Rightarrow> ('k, 'v) BPlusTree \<Rightarrow> ('k, 'v) BPlusTree" where
  "with_pins held ps s =
     s\<lparr>bpt_pin_count := (\<lambda>p. bpt_pin_count s p + count_list held p), page_set := ps\<rparr>"

text \<open>A tree of leaf and internal size 4 that holds the keys 1 to 5: the root, page 3,
  over the leaves \<open>[1, 2]\<close> in page 1 and \<open>[3, 4, 5]\<close> in page 2; nothing is pinned.\<close>

definition bpt_two_leaves :: "(int, nat) BPlusTree" where
  "bpt_two_leaves =
     \<lparr>root_page_id = 3, leaf_max_size = 4, internal_max_size = 4,
      bpt_pages = [1 \<mapsto> LeafPage 1 3 4 2 [(1, 1), (2, 2)],
                   2 \<mapsto> LeafPage 2 3 4 INVALID_PAGE_ID [(3, 3), (4, 4), (5, 5)],
                   3 \<mapsto> InternalPage 3 INVALID_PAGE_ID 4 [(0, 1), (3, 2)]],
      bpt_pin_count = (\<lambda>_. 0),
      bpt_is_dirty = (\<lambda>p. p \<in> {0, 1, 2, 3}),
      bpt_next_page_id = 4, header_record = Some 3, page_set = []\<rparr>"

section \<open>LRU replacer: theorems\<close>

lemma candidate_since_bound: "candidate_since h f = Some t \<Longrightarrow> t < length h"
  by (induction h f rule: candidate_since.induct) (auto split: if_splits)

lemma sorted_wrt_cong_set:
  "(\<And>x y. x \<in> set xs \<Longrightarrow> y \<in> set xs \<Longrightarrow> P x y \<Longrightarrow> Q x y) \<Longrightarrow> sorted_wrt P xs \<Longrightarrow> sorted_wrt Q xs"
  by (induction xs) auto

lemma lru_inv_step:
  assumes "lru_inv h r" "apply_op opn r = (res, r')"
  shows "lru_inv ((opn, res) # h) r'"
proof (cases opn)
  case OpVictim
  show ?thesis
  proof (cases "lru_list r")
    case Nil
    with OpVictim assms show ?thesis
      by (auto simp: lru_inv_def Victim_def)
  next
    case (Cons f rest)
    with OpVictim assms(2) have res: "res = Some f" and r': "r' = \<lparr>lru_list = rest, lru_map = lru_map r - {f}\<rparr>"
      by (auto simp: Victim_def)
    have cs: "candidate_since ((opn, res) # h) g = (if g = f then None else candidate_since h g)" for g
      using OpVictim res by simp
    have "sorted_wrt (earlier h) rest" using assms(1) Cons by (simp add: lru_inv_def)
    then have "sorted_wrt (earlier ((opn, res) # h)) rest"
      apply (rule sorted_wrt_cong_set[rotated])
      using assms(1) Cons by (auto simp: earlier_def cs lru_inv_def)
    then show ?thesis
      using assms(1) Cons unfolding lru_inv_def r' by (auto simp: cs)
  qed
next
  case (OpPin f)
  with assms(2) have res: "res = None" and r': "r' = Pin f r" by auto
  have cs: "candidate_since ((opn, res) # h) g = (if g = f then None else candidate_since h g)" for g
    using OpPin res by simp
  show ?thesis
  proof (cases "f \<in> lru_map r")
    case False
    then have "r' = r" using r' by (simp add: Pin_def)
    moreover have "candidate_since ((opn, res) # h) = candidate_since h"
      using assms(1) False by (auto simp: cs lru_inv_def fun_eq_iff)
    ultimately show ?thesis using assms(1) by (simp add: lru_inv_def earlier_def[abs_def])
  next
    case True
    then have r'': "r' = \<lparr>lru_list = remove1 f (lru_list r), lru_map = lru_map r - {f}\<rparr>"
      using r' by (simp add: Pin_def)
    have d: "distinct (lru_list r)" using assms(1) by (simp add: lru_inv_def)
    have "sorted_wrt (earlier h) (remove1 f (lru_list r))"
      using assms(1) d by (simp add: lru_inv_def distinct_remove1_removeAll removeAll_filter_not_eq sorted_wrt_filter)
    then have "sorted_wrt (earlier ((opn, res) # h)) (remove1 f (lru_list r))"
      apply (rule sorted_wrt_cong_set[rotated])
      using d by (auto simp: earlier_def cs)
    then show ?thesis
      using assms(1) d unfolding lru_inv_def r'' by (auto simp: cs)
  qed
next
  case (OpUnpin f)
  with assms(2) have res: "res = None" and r': "r' = Unpin f r" by auto
  show ?thesis
  proof (cases "f \<in> lru_map r")
    case True
    then have "r' = r" using r' by (simp add: Unpin_def)
    moreover have "candidate_since ((opn, res) # h) = candidate_since h"
      using assms(1) True OpUnpin by (auto simp: lru_inv_def fun_eq_iff)
    ultimately show ?thesis using assms(1) by (simp add: lru_inv_def earlier_def[abs_def])
  next
    case False
    then have r'': "r' = \<lparr>lru_list = lru_list r @ [f], lru_map = insert f (lru_map r)\<rparr>"
      using r' by (simp add: Unpin_def)
    have fn: "candidate_since h f = None" using assms(1) False by (simp add: lru_inv_def)
    have cs: "candidate_since ((opn, res) # h) g = (if g = f then Some (length h) else candidate_since h g)" for g
      using OpUnpin fn by simp
    have "sorted_wrt (earlier ((opn, res) # h)) (lru_list r)"
      apply (rule sorted_wrt_cong_set[where P = "earlier h"])
      using assms(1) False by (auto simp: earlier_def cs lru_inv_def)
    moreover have "earlier ((opn, res) # h) x f" if "x \<in> set (lru_list r)" for x
    proof -
      from that assms(1) obtain t where "candidate_since h x = Some t" by (auto simp: lru_inv_def)
      moreover from this have "t < length h" by (rule candidate_since_bound)
      moreover have "x \<noteq> f" using that assms(1) False by (auto simp: lru_inv_def)
      ultimately show ?thesis by (simp add: earlier_def cs)
    qed
    ultimately have "sorted_wrt (earlier ((opn, res) # h)) (lru_list r @ [f])"
      by (simp add: sorted_wrt_append)
    then show ?thesis
      using assms(1) False unfolding lru_inv_def r'' by (auto simp: cs)
  qed
qed

lemma lru_inv_replay:
  "lru_inv h r \<Longrightarrow> replay ops (h, r) = (h', r') \<Longrightarrow> lru_inv h' r'"
proof (induction ops arbitrary: h r)
  case Nil
  then show ?case by simp
next
  case (Cons opn ops)
  obtain res r1 where a: "apply_op opn r = (res, r1)" by (cases "apply_op opn r")
  from Cons.prems(2) a have "replay ops ((opn, res) # h, r1) = (h', r')" by simp
  moreover have "lru_inv ((opn, res) # h) r1" by (rule lru_inv_step[OF Cons.prems(1) a])
  ultimately show ?case by (rule Cons.IH[rotated])
qed

lemma lru_inv_new: "lru_inv [] LRUReplacer_new"
  by (simp add: lru_inv_def LRUReplacer_new_def)

text \<open>
  C4. After any sequence of \<^verbatim>\<open>Pin\<close>/\<^verbatim>\<open>Unpin\<close>/\<^verbatim>\<open>Victim\<close> calls on a new replacer:
  the frames in the replacer are exactly the candidates of the history (unpinned and not
  since removed by \<^verbatim>\<open>Pin\<close> or returned by \<^verbatim>\<open>Victim\<close>); \<^verbatim>\<open>Unpin\<close> of a candidate
  changes nothing and \<^verbatim>\<open>Unpin\<close> of another frame appends it; \<^verbatim>\<open>Pin\<close> removes the frame
  if it is a candidate and changes nothing otherwise; \<^verbatim>\<open>Victim\<close> returns none exactly
  when there is no candidate, and otherwise removes and returns the candidate whose
  \<^verbatim>\<open>Unpin\<close> is the earliest, which in particular is not a pinned frame.
\<close>

theorem LRUReplacer_order:
  assumes "replay ops ([], LRUReplacer_new) = (h, r)"
  shows "(\<forall>f. f \<in> set (lru_list r) \<longleftrightarrow> candidate_since h f \<noteq> None) \<and>
         (\<forall>f. Unpin f r = (if candidate_since h f \<noteq> None then r
                           else \<lparr>lru_list = lru_list r @ [f], lru_map = insert f (lru_map r)\<rparr>)) \<and>
         (\<forall>f. candidate_since h f = None \<longrightarrow> Pin f r = r) \<and>
         (\<forall>f. set (lru_list (Pin f r)) = set (lru_list r) - {f}) \<and>
         (fst (Victim r) = None \<longleftrightarrow> (\<forall>f. candidate_since h f = None)) \<and>
         (\<forall>f. fst (Victim r) = Some f \<longrightarrow>
            (\<exists>t. candidate_since h f = Some t \<and>
                 (\<forall>g u. candidate_since h g = Some u \<longrightarrow> t \<le> u)) \<and>
            lru_list (snd (Victim r)) = remove1 f (lru_list r))"
proof -
  have inv: "lru_inv h r" by (rule lru_inv_replay[OF lru_inv_new assms])
  have a: "\<forall>f. f \<in> set (lru_list r) \<longleftrightarrow> candidate_since h f \<noteq> None"
    using inv by (auto simp: lru_inv_def)
  have b: "fst (Victim r) = None \<longleftrightarrow> (\<forall>f. candidate_since h f = None)"
  proof (cases "lru_list r")
    case Nil
    then show ?thesis using a by (simp add: Victim_def)
  next
    case (Cons f rest)
    then have "f \<in> set (lru_list r)" by simp
    with a have "candidate_since h f \<noteq> None" by blast
    then show ?thesis using Cons by (auto simp: Victim_def)
  qed
  have c: "(\<exists>t. candidate_since h f = Some t \<and> (\<forall>g u. candidate_since h g = Some u \<longrightarrow> t \<le> u)) \<and>
            lru_list (snd (Victim r)) = remove1 f (lru_list r)"
    if v: "fst (Victim r) = Some f" for f
  proof -
    from v obtain rest where l: "lru_list r = f # rest"
      by (auto simp: Victim_def split: list.splits)
    from l have "f \<in> set (lru_list r)" by simp
    with a obtain t where t: "candidate_since h f = Some t" by blast
    have "t \<le> u" if "candidate_since h g = Some u" for g u
    proof (cases "g = f")
      case True
      then show ?thesis using t that by simp
    next
      case False
      have "g \<in> set (lru_list r)" using a that by blast
      then have "g \<in> set rest" using False l by simp
      moreover have "\<forall>x\<in>set rest. earlier h f x" using inv l by (simp add: lru_inv_def)
      ultimately have "earlier h f g" by blast
      then show ?thesis using t that by (auto simp: earlier_def)
    qed
    then show ?thesis using t l by (auto simp: Victim_def)
  qed
  have m: "lru_map r = set (lru_list r)" and d: "distinct (lru_list r)"
    using inv by (auto simp: lru_inv_def)
  have u: "\<forall>f. Unpin f r = (if candidate_since h f \<noteq> None then r
                           else \<lparr>lru_list = lru_list r @ [f], lru_map = insert f (lru_map r)\<rparr>)"
    using a m by (auto simp: Unpin_def)
  have p1: "\<forall>f. candidate_since h f = None \<longrightarrow> Pin f r = r"
    using a m by (auto simp: Pin_def)
  have p2: "\<forall>f. set (lru_list (Pin f r)) = set (lru_list r) - {f}"
    using m d by (auto simp: Pin_def)
  from a b c u p1 p2 show ?thesis by blast
qed

text \<open>Scenario S1 of the spec, with the results of the calls in the history.\<close>

lemma replacer_scenario_S1:
  "fst (replay [OpUnpin 1, OpUnpin 2, OpUnpin 3, OpUnpin 4, OpUnpin 5, OpUnpin 6,
                OpVictim, OpVictim, OpVictim, OpPin 3, OpPin 4, OpUnpin 4,
                OpVictim, OpVictim, OpVictim] ([], LRUReplacer_new)) =
   rev [(OpUnpin 1, None), (OpUnpin 2, None), (OpUnpin 3, None), (OpUnpin 4, None),
        (OpUnpin 5, None), (OpUnpin 6, None),
        (OpVictim, Some 1), (OpVictim, Some 2), (OpVictim, Some 3),
        (OpPin 3, None), (OpPin 4, None), (OpUnpin 4, None),
        (OpVictim, Some 5), (OpVictim, Some 6), (OpVictim, Some 4)]"
  by (simp add: LRUReplacer_new_def Victim_def Pin_def Unpin_def)

theorem LRUReplacer_order_witness:
  "\<exists>h r. replay [OpUnpin 1, OpUnpin 2, OpUnpin 3, OpVictim, OpPin 3, OpUnpin 1] ([], LRUReplacer_new) = (h, r) \<and>
     lru_list r = [2, 1] \<and> fst (Victim r) = Some 2 \<and>
     candidate_since h 2 = Some 1 \<and> candidate_since h 1 = Some 5 \<and> candidate_since h 3 = None \<and>
     Pin 3 r = r \<and> Unpin 2 r = r"
proof -
  obtain h r where hr:
    "replay [OpUnpin 1, OpUnpin 2, OpUnpin 3, OpVictim, OpPin 3, OpUnpin 1] ([], LRUReplacer_new) = (h, r)"
    by (cases "replay [OpUnpin 1, OpUnpin 2, OpUnpin 3, OpVictim, OpPin 3, OpUnpin 1] ([], LRUReplacer_new)")
  from hr have h: "h = rev [(OpUnpin 1, None), (OpUnpin 2, None), (OpUnpin 3, None), (OpVictim, Some 1),
                       (OpPin 3, None), (OpUnpin 1, None)]"
    and r: "lru_list r = [2, 1]"
    by (auto simp: LRUReplacer_new_def Victim_def Pin_def Unpin_def)
  have cs: "candidate_since h 2 = Some 1" "candidate_since h 1 = Some 5" "candidate_since h 3 = None"
    by (simp_all add: h)
  from LRUReplacer_order[OF hr] cs r hr show ?thesis
    by (auto simp: Victim_def)
qed



section \<open>Buffer pool: theorems\<close>

subsection \<open>Page id allocation\<close>

lemma unat_affine:
  fixes k N :: "32 word"
  assumes "unat k + j * unat N < 2 ^ 32"
  shows "unat (k + of_nat j * N) = unat k + j * unat N"
proof -
  have "unat (k + of_nat j * N) = (unat k + j * unat N) mod 2 ^ 32"
    by (simp add: unat_word_ariths unat_of_nat mod_simps)
  with assms show ?thesis by simp
qed

lemma affine_mod:
  fixes k N :: "32 word"
  assumes "k < N" "unat k + j * unat N < 2 ^ 32"
  shows "(k + of_nat j * N) mod N = k"
proof -
  have "unat ((k + of_nat j * N) mod N) = (unat k + j * unat N) mod unat N"
    by (simp add: unat_mod unat_affine[OF assms(2)])
  also have "\<dots> = unat k" using assms(1) by (simp add: word_less_nat_alt)
  finally show ?thesis by (simp add: word_unat_eq_iff)
qed

lemma sint_below_half:
  fixes w :: "32 word"
  assumes "unat w < 2 ^ 31"
  shows "sint w = uint w"
proof -
  have "int (unat w) < int (2 ^ 31)" using assms by (simp only: of_nat_less_iff)
  then have u: "uint w < 2 ^ 31" by simp
  have "sint w = signed_take_bit 31 (uint w)" by (simp add: sint_uint)
  also have "\<dots> = uint w"
  proof (rule signed_take_bit_int_eq_self)
    have "(- (2 ^ 31) :: int) \<le> 0" by simp
    also have "0 \<le> uint w" by simp
    finally show "- (2 ^ 31) \<le> uint w" .
    show "uint w < 2 ^ 31" by (rule u)
  qed
  finally show ?thesis .
qed

text \<open>
  As long as the 32-bit counter does not wrap, every assertion of \<^verbatim>\<open>ValidatePageId\<close>
  holds and the \<open>n\<close>-th call after \<open>i\<close> earlier ones returns \<open>k + (i + n) * N\<close>,
  computed in 32-bit arithmetic.
\<close>

lemma AllocatePage_nth_closed:
  assumes "instance_index s < num_instances s"
    and "next_page_id s = instance_index s + of_nat i * num_instances s"
    and "unat (instance_index s) + (i + n) * unat (num_instances s) < 2 ^ 32"
  shows "AllocatePage_nth n s =
           Some (instance_index s + of_nat (i + n) * num_instances s,
                 s\<lparr>next_page_id := instance_index s + of_nat (i + n + 1) * num_instances s\<rparr>)"
  using assms
proof (induction n arbitrary: s i)
  case 0
  have "unat (instance_index s) + i * unat (num_instances s) < 2 ^ 32" using 0 by simp
  from affine_mod[OF 0(1) this] 0(2) show ?case
    by (simp add: AllocatePage_def ValidatePageId_def Let_def algebra_simps)
next
  case (Suc n)
  have b: "unat (instance_index s) + i * unat (num_instances s) < 2 ^ 32"
    using Suc.prems(3) by (simp add: algebra_simps)
  let ?s' = "s\<lparr>next_page_id := next_page_id s + num_instances s\<rparr>"
  have a: "AllocatePage s = Some (next_page_id s, ?s')"
    using affine_mod[OF Suc.prems(1) b] Suc.prems(2)
    by (simp add: AllocatePage_def ValidatePageId_def Let_def)
  have "AllocatePage_nth n ?s' =
      Some (instance_index ?s' + of_nat (Suc i + n) * num_instances ?s',
            ?s'\<lparr>next_page_id := instance_index ?s' + of_nat (Suc i + n + 1) * num_instances ?s'\<rparr>)"
    apply (rule Suc.IH)
    using Suc.prems by (simp_all add: algebra_simps)
  with a show ?case by (simp add: algebra_simps)
qed

text \<open>
  C8 (amended). For an instance constructed with \<open>num_instances = N\<close> and
  \<open>instance_index = k\<close>, as long as \<open>k + n * N\<close> fits a signed 32-bit page id
  (\<open>k + n * N < 2^31\<close>), the \<open>n\<close>-th call of \<^verbatim>\<open>AllocatePage\<close> (counting from 0) returns
  the page id \<open>k + n * N\<close>, and that page id is congruent to \<open>k\<close> modulo \<open>N\<close>.
\<close>

theorem AllocatePage_sharded:
  assumes "BufferPoolManagerInstance_new psize N k dm = Some s"
      and "unat k + n * unat N < 2 ^ 31"
  shows "\<exists>pid s'. AllocatePage_nth n s = Some (pid, s') \<and>
           sint pid = uint k + int n * uint N \<and>
           sint pid mod uint N = uint k"
proof -
  from assms(1) have kN: "k < N"
    and s: "num_instances s = N" "instance_index s = k" "next_page_id s = k"
    by (auto simp: BufferPoolManagerInstance_new_def split: if_splits)
  let ?pid = "k + of_nat n * N"
  have b: "unat k + n * unat N < 2 ^ 32" using assms(2) by simp
  have "AllocatePage_nth n s =
          Some (instance_index s + of_nat (0 + n) * num_instances s,
                s\<lparr>next_page_id := instance_index s + of_nat (0 + n + 1) * num_instances s\<rparr>)"
    by (rule AllocatePage_nth_closed) (use kN s b in simp_all)
  then have r: "AllocatePage_nth n s = Some (?pid, s\<lparr>next_page_id := k + of_nat (n + 1) * N\<rparr>)"
    using s by simp
  have u: "unat ?pid = unat k + n * unat N" by (rule unat_affine[OF b])
  have "int (unat ?pid) = int (unat k + n * unat N)" by (simp only: u)
  then have "uint ?pid = uint k + int n * uint N" by simp
  moreover have "sint ?pid = uint ?pid"
    by (rule sint_below_half) (use u assms(2) in simp)
  ultimately have si: "sint ?pid = uint k + int n * uint N" by simp
  have "uint k < uint N" using kN by (simp add: word_less_def)
  then have "(uint k + int n * uint N) mod uint N = uint k"
    by (simp add: mod_pos_pos_trivial)
  with r si show ?thesis by simp
qed

theorem AllocatePage_sharded_witness:
  "\<exists>s pid s'. BufferPoolManagerInstance_new 2 3 1 \<lparr>writes = [], deallocated = []\<rparr> = Some s \<and>
      AllocatePage_nth 2 s = Some (pid, s') \<and> sint pid = 7 \<and> sint pid mod 3 = 1"
proof -
  obtain s where s: "BufferPoolManagerInstance_new 2 3 1 \<lparr>writes = [], deallocated = []\<rparr> = Some s"
    by (simp add: BufferPoolManagerInstance_new_def)
  have "unat (1 :: 32 word) + 2 * unat (3 :: 32 word) < 2 ^ 31" by simp
  from AllocatePage_sharded[OF s this] s show ?thesis by auto
qed

text \<open>
  The claim as stated, for every \<open>n\<close>, fails once the counter passes \<open>2^31 - 1\<close>: with
  \<open>N = 3\<close> and \<open>k = 0\<close> the call number 715827883 passes the assertion and returns
  \<open>-2147483647\<close>, not \<open>2147483649\<close>.
\<close>

theorem AllocatePage_sharded_counterexample:
  "\<not> (\<forall>n pid s'.
        AllocatePage_nth n (the (BufferPoolManagerInstance_new 1 3 0 \<lparr>writes = [], deallocated = []\<rparr>))
          = Some (pid, s')
        \<longrightarrow> sint pid = 0 + int n * 3)"
proof
  let ?s = "the (BufferPoolManagerInstance_new 1 3 0 \<lparr>writes = [], deallocated = []\<rparr>)"
  assume a: "\<forall>n pid s'. AllocatePage_nth n ?s = Some (pid, s') \<longrightarrow> sint pid = 0 + int n * 3"
  have "AllocatePage_nth 715827883 ?s =
          Some (instance_index ?s + of_nat (0 + 715827883) * num_instances ?s,
                ?s\<lparr>next_page_id := instance_index ?s + of_nat (0 + 715827883 + 1) * num_instances ?s\<rparr>)"
    by (rule AllocatePage_nth_closed) (simp_all add: BufferPoolManagerInstance_new_def)
  with a have "sint (instance_index ?s + of_nat (0 + 715827883) * num_instances ?s)
                 = 0 + int 715827883 * 3"
    by blast
  then show False by (simp add: BufferPoolManagerInstance_new_def)
qed

subsection \<open>DeletePage\<close>

text \<open>
  C9. \<^verbatim>\<open>DeletePgImp\<close> calls \<^verbatim>\<open>DeallocatePage\<close> before it looks at the page table, so
  in every case the page id is appended to the deallocations; and when the page is
  resident with a positive pin count the call returns false and the state differs from
  the one before only in that deallocation: frames, page table, pin counts, dirty flags,
  free list and replacer are as before.
\<close>

theorem DeletePgImp_deallocates_first:
  "deallocated (disk_manager (snd (DeletePgImp pid s))) = deallocated (disk_manager s) @ [pid] \<and>
   (map_of (page_table s) pid = Some f \<and> 0 < pin_count (pages s ! f) \<longrightarrow>
      DeletePgImp pid s =
        (False, s\<lparr>disk_manager := (disk_manager s)\<lparr>deallocated := deallocated (disk_manager s) @ [pid]\<rparr>\<rparr>))"
  by (auto simp: DeletePgImp_def DeallocatePage_def Let_def WritePage_def split: option.splits)

text \<open>A pool of two frames after one \<^verbatim>\<open>NewPage\<close>: page 0 is resident in frame 0, pinned.\<close>

definition pool_one_pinned :: BufferPoolManagerInstance where
  "pool_one_pinned =
     \<lparr>pool_size = 2, num_instances = 1, instance_index = 0, next_page_id = 1,
      pages = [\<lparr>page_id = 0, pin_count = 1, is_dirty = False, page_data = replicate PAGE_SIZE 0\<rparr>,
               Page_new],
      page_table = [(0, 0)], free_list = [1], replacer = LRUReplacer_new,
      disk_manager = \<lparr>writes = [], deallocated = []\<rparr>\<rparr>"

lemma pool_one_pinned_reachable:
  "\<exists>s. BufferPoolManagerInstance_new 2 1 0 \<lparr>writes = [], deallocated = []\<rparr> = Some s \<and>
       NewPgImp s = Some (Some (0, 0), pool_one_pinned)"
  by (simp add: BufferPoolManagerInstance_new_def NewPgImp_def AllocatePage_def ValidatePageId_def
      Let_def LRUReplacer_new_def Pin_def pool_one_pinned_def upt_rec eval_nat_numeral)

theorem DeletePgImp_deallocates_first_witness:
  "map_of (page_table pool_one_pinned) 0 = Some 0 \<and>
   0 < pin_count (pages pool_one_pinned ! 0) \<and>
   DeletePgImp 0 pool_one_pinned =
     (False, pool_one_pinned\<lparr>disk_manager := \<lparr>writes = [], deallocated = [0]\<rparr>\<rparr>)"
  using DeletePgImp_deallocates_first[of 0 pool_one_pinned 0]
  by (simp add: pool_one_pinned_def)

subsection \<open>FlushAll\<close>

text \<open>The pool above after \<^verbatim>\<open>UnpinPage(0, true)\<close>: page 0 is resident, unpinned and dirty.\<close>

definition pool_one_dirty :: BufferPoolManagerInstance where
  "pool_one_dirty =
     \<lparr>pool_size = 2, num_instances = 1, instance_index = 0, next_page_id = 1,
      pages = [\<lparr>page_id = 0, pin_count = 0, is_dirty = True, page_data = replicate PAGE_SIZE 0\<rparr>,
               Page_new],
      page_table = [(0, 0)], free_list = [1],
      replacer = \<lparr>lru_list = [0], lru_map = {0}\<rparr>,
      disk_manager = \<lparr>writes = [], deallocated = []\<rparr>\<rparr>"

lemma pool_one_dirty_reachable:
  "UnpinPgImp 0 True pool_one_pinned = (True, pool_one_dirty)"
  by (simp add: UnpinPgImp_def pool_one_pinned_def pool_one_dirty_def Let_def Unpin_def
      LRUReplacer_new_def)

text \<open>
  C5 (the code departs from the claim). On a pool whose only resident page is dirty,
  \<^verbatim>\<open>FlushAllPgsImp\<close> writes the page to disk as \<^verbatim>\<open>FlushPgImp\<close> over every mapping does,
  but it leaves the frame's dirty flag set, where \<^verbatim>\<open>FlushPgImp\<close> clears it: the two
  final states differ.
\<close>

theorem FlushAllPgsImp_keeps_dirty:
  "is_dirty (pages (FlushAllPgsImp pool_one_dirty) ! 0) \<and>
   \<not> is_dirty (pages (FlushAll_spec pool_one_dirty) ! 0) \<and>
   writes (disk_manager (FlushAllPgsImp pool_one_dirty)) = [(0, replicate PAGE_SIZE 0)] \<and>
   writes (disk_manager (FlushAll_spec pool_one_dirty)) = [(0, replicate PAGE_SIZE 0)] \<and>
   FlushAllPgsImp pool_one_dirty \<noteq> FlushAll_spec pool_one_dirty"
  by (simp add: FlushAllPgsImp_def FlushAll_spec_def FlushPgImp_def pool_one_dirty_def
      WritePage_def Let_def)

section \<open>Lock manager: theorems\<close>

lemmas lock_defs = LockShared_def LockExclusive_def LockUpgrade_def Lock_wakeup_def
  LockUpgrade_wakeup_def Lock_check_and_grant_def LockUpgrade_check_and_finish_def
  LockUpgrade_finish_def NeedWait_def NeedWaitUpdate_def enqueue_def grant_all_def
  SetState_def CheckAbort_def LockManager_new_def Let_def Unlock_def INVALID_TXN_ID_def

subsection \<open>What a wait check may change\<close>

lemma wounds_only_younger_refl: "wounds_only_younger t txns txns"
  by (simp add: wounds_only_younger_def)

lemma wounds_only_younger_SetState:
  "t < u \<Longrightarrow> wounds_only_younger t (SetState u ABORTED txns) txns' \<Longrightarrow>
     wounds_only_younger t txns txns'"
  unfolding wounds_only_younger_def SetState_def
  by (auto split: if_splits)

lemma wounds_only_younger_self:
  "wounds_only_younger t txns txns' \<Longrightarrow> txns' t = txns t"
  by (auto simp: wounds_only_younger_def)

lemma NeedWait_loop_frame:
  "NeedWait_loop t m reqs txns nw ha = Some (nw', ha', txns') \<Longrightarrow> wounds_only_younger t txns txns'"
proof (induction reqs arbitrary: txns nw ha)
  case Nil
  then show ?case by simp
next
  case (Cons it rest)
  show ?case
  proof (cases "txn_id it = t")
    case True
    with Cons.prems show ?thesis by (simp add: wounds_only_younger_refl)
  next
    case False
    note ne = this
    show ?thesis
    proof (cases "txn_id it > t \<and> ((m = SHARED \<and> lock_mode it = EXCLUSIVE) \<or> m = EXCLUSIVE)
                    \<and> state (txns (txn_id it)) \<noteq> ABORTED")
      case True
      with ne Cons.prems
      have "NeedWait_loop t m rest (SetState (txn_id it) ABORTED txns) nw True = Some (nw', ha', txns')"
        by (simp add: Let_def)
      then have "wounds_only_younger t (SetState (txn_id it) ABORTED txns) txns'" by (rule Cons.IH)
      with True show ?thesis by (auto intro: wounds_only_younger_SetState)
    next
      case False
      with ne Cons.prems obtain nw1 ha1
        where "NeedWait_loop t m rest txns nw1 ha1 = Some (nw', ha', txns')"
        by (auto simp: Let_def split: if_splits)
      then show ?thesis by (rule Cons.IH)
    qed
  qed
qed

text \<open>\<^verbatim>\<open>NeedWait\<close> never sets a transaction as old as the requester, or older, to
  \<^verbatim>\<open>ABORTED\<close>, and changes nothing but the state of younger ones.\<close>

lemma NeedWait_frame:
  "NeedWait t q txns = Some (nw, ha, txns') \<Longrightarrow> wounds_only_younger t txns txns'"
  by (auto simp: NeedWait_def Let_def wounds_only_younger_refl simp del: NeedWait_loop.simps
      split: list.splits if_splits dest: NeedWait_loop_frame)

lemma Lock_check_and_grant_Blocked:
  assumes "Lock_check_and_grant t rid w = (Blocked, w1)"
  shows "lock_table w1 = lock_table w \<and> txn_map w1 t = txn_map w t"
proof -
  from assms obtain ha txns'
    where nw: "NeedWait t (lock_table w rid) (txn_map w) = Some (True, ha, txns')"
      and w1: "w1 = w\<lparr>txn_map := txns'\<rparr>"
    by (auto simp: Lock_check_and_grant_def Let_def split: option.splits if_splits)
  from NeedWait_frame[OF nw] have "txns' t = txn_map w t" by (rule wounds_only_younger_self)
  with w1 show ?thesis by simp
qed

subsection \<open>Wound-wait\<close>

text \<open>
  C1 (the code departs from the claim). \<^verbatim>\<open>NeedWait\<close> takes the mode it tests conflicts
  with from \<^verbatim>\<open>request_queue_.back()\<close>, which is the requester's own request only at the
  first check. In the scenario, when transaction 3 (waiting for a shared lock) is woken by
  the notification of 6 and checks again, the last request is 6's exclusive one, and 3
  sets transaction 5 to \<^verbatim>\<open>ABORTED\<close>, whose queued request is shared as 3's own is.
\<close>

theorem NeedWait_wounds_shared_for_shared:
  "request_queue (lock_table wound_scenario (0, 0)) =
     [\<lparr>txn_id = 1, lock_mode = EXCLUSIVE, granted = True\<rparr>,
      \<lparr>txn_id = 5, lock_mode = SHARED, granted = False\<rparr>,
      \<lparr>txn_id = 3, lock_mode = SHARED, granted = False\<rparr>,
      \<lparr>txn_id = 7, lock_mode = EXCLUSIVE, granted = False\<rparr>,
      \<lparr>txn_id = 6, lock_mode = EXCLUSIVE, granted = False\<rparr>] \<and>
   state (txn_map wound_scenario 5) = GROWING \<and>
   state (txn_map wound_scenario 3) = GROWING \<and>
   fst (Lock_wakeup 3 (0, 0) wound_scenario) = Blocked \<and>
   state (txn_map (snd (Lock_wakeup 3 (0, 0) wound_scenario)) 5) = ABORTED"
  by (simp add: wound_scenario_def lock_defs)

subsection \<open>Lock upgrade\<close>

text \<open>
  C2. \<^verbatim>\<open>NeedWaitUpdate\<close> is a function only once its missing brace is added, and what it
  computes depends on where. With the brace where \<^verbatim>\<open>NeedWait\<close> closes the same block, it is
  the predicate of the spec on every queue that holds a request of the caller: every younger
  request ahead of the caller's own is set to \<^verbatim>\<open>ABORTED\<close>, and the result is true exactly
  when an older request is ahead.
\<close>

lemma SetState_same: "state (txns u) = st \<Longrightarrow> SetState u st txns = txns"
  by (simp add: SetState_def fun_eq_iff)

lemma NeedWaitUpdate_braced_loop_spec:
  "list_ex (\<lambda>r. txn_id r = t) reqs \<Longrightarrow>
   \<exists>ha'. NeedWaitUpdate_braced_loop t reqs txns nw ha =
     Some (nw \<or> list_ex (\<lambda>r. txn_id r < t) (requests_ahead t reqs), ha',
           fold (\<lambda>r acc. if txn_id r > t then SetState (txn_id r) ABORTED acc else acc)
                (requests_ahead t reqs) txns)"
proof (induction reqs arbitrary: txns nw ha)
  case Nil
  then show ?case by simp
next
  case (Cons it rest)
  show ?case
  proof (cases "txn_id it = t")
    case True
    then show ?thesis by (simp add: requests_ahead_def)
  next
    case False
    with Cons.prems have ex: "list_ex (\<lambda>r. txn_id r = t) rest" by simp
    have ra: "requests_ahead t (it # rest) = it # requests_ahead t rest"
      using False by (simp add: requests_ahead_def)
    show ?thesis
    proof (cases "txn_id it > t")
      case True
      show ?thesis
      proof (cases "state (txns (txn_id it)) = ABORTED")
        case ab: True
        from Cons.IH[OF ex, of txns nw ha] show ?thesis
          using False True ab by (simp add: ra SetState_same)
      next
        case nab: False
        from Cons.IH[OF ex, of "SetState (txn_id it) ABORTED txns" nw True] show ?thesis
          using False True nab by (simp add: ra)
      qed
    next
      case nt: False
      with False have lt: "txn_id it < t" by simp
      from Cons.IH[OF ex, of txns True ha] show ?thesis
        using False nt lt by (simp add: ra)
    qed
  qed
qed

lemma NeedWaitUpdate_braced_is_spec:
  assumes "list_ex (\<lambda>r. txn_id r = t) (request_queue q)"
  shows "\<exists>ha. NeedWaitUpdate_braced t q txns =
           Some (fst (NeedWaitUpdate_spec t q txns), ha, snd (NeedWaitUpdate_spec t q txns))"
  using NeedWaitUpdate_braced_loop_spec[OF assms, of txns False False]
  by (simp add: NeedWaitUpdate_braced_def NeedWaitUpdate_spec_def)

text \<open>
  With the brace after line 292 instead, the two functions differ wherever a request is ahead
  of the caller's own or none is: with transaction 1 ahead of the upgrading transaction 2 the
  first returns false at the first request and the second waits, and with no request ahead the
  first ends without a \<^verbatim>\<open>return\<close> and the second grants.
\<close>

lemma NeedWaitUpdate_late_brace:
  "request_queue (lock_table two_readers (0, 0)) =
     [\<lparr>txn_id = 1, lock_mode = SHARED, granted = True\<rparr>,
      \<lparr>txn_id = 2, lock_mode = SHARED, granted = True\<rparr>] \<and>
   NeedWaitUpdate 2 (lock_table two_readers (0, 0)) (txn_map two_readers)
     = Some (False, False, txn_map two_readers) \<and>
   NeedWaitUpdate_braced 2 (lock_table two_readers (0, 0)) (txn_map two_readers)
     = Some (True, False, txn_map two_readers) \<and>
   fst (NeedWaitUpdate_spec 2 (lock_table two_readers (0, 0)) (txn_map two_readers)) \<and>
   request_queue (lock_table one_reader (0, 0)) =
     [\<lparr>txn_id = 2, lock_mode = SHARED, granted = True\<rparr>] \<and>
   NeedWaitUpdate 2 (lock_table one_reader (0, 0)) (txn_map one_reader) = None \<and>
   NeedWaitUpdate_braced 2 (lock_table one_reader (0, 0)) (txn_map one_reader)
     = Some (False, False, txn_map one_reader) \<and>
   \<not> fst (NeedWaitUpdate_spec 2 (lock_table one_reader (0, 0)) (txn_map one_reader))"
  by (simp add: two_readers_def one_reader_def lock_defs NeedWaitUpdate_spec_def requests_ahead_def
      NeedWaitUpdate_braced_def)

text \<open>
  C3 (the code departs from the claim). \<^verbatim>\<open>LockUpgrade\<close> never writes the lock table,
  whatever it returns. When transaction 2 upgrades while 1 also holds the shared lock, the
  call returns true and moves the row from the shared to the exclusive lock set of 2, but
  the request of 2 in the queue still has mode \<^verbatim>\<open>SHARED\<close>.
\<close>

theorem LockUpgrade_leaves_request_shared:
  "(\<forall>t rid w. lock_table (snd (LockUpgrade t rid w)) = lock_table w) \<and>
   (0, 0) \<notin> exclusive_lock_set (txn_map two_readers 2) \<and>
   fst (LockUpgrade 2 (0, 0) two_readers) = Returned True \<and>
   request_queue (lock_table (snd (LockUpgrade 2 (0, 0) two_readers)) (0, 0)) =
     [\<lparr>txn_id = 1, lock_mode = SHARED, granted = True\<rparr>,
      \<lparr>txn_id = 2, lock_mode = SHARED, granted = True\<rparr>] \<and>
   (0, 0) \<notin> shared_lock_set (txn_map (snd (LockUpgrade 2 (0, 0) two_readers)) 2) \<and>
   (0, 0) \<in> exclusive_lock_set (txn_map (snd (LockUpgrade 2 (0, 0) two_readers)) 2)"
proof -
  have "lock_table (snd (LockUpgrade t rid w)) = lock_table w" for t rid w
    by (simp add: LockUpgrade_def LockUpgrade_check_and_finish_def LockUpgrade_finish_def Let_def
        split: option.splits prod.splits)
  moreover have "(0, 0) \<notin> exclusive_lock_set (txn_map two_readers 2)"
    by (simp add: two_readers_def lock_defs)
  moreover have "fst (LockUpgrade 2 (0, 0) two_readers) = Returned True"
    by (simp add: two_readers_def lock_defs)
  moreover have "request_queue (lock_table (snd (LockUpgrade 2 (0, 0) two_readers)) (0, 0)) =
     [\<lparr>txn_id = 1, lock_mode = SHARED, granted = True\<rparr>,
      \<lparr>txn_id = 2, lock_mode = SHARED, granted = True\<rparr>]"
    by (simp add: two_readers_def lock_defs)
  moreover have "(0, 0) \<notin> shared_lock_set (txn_map (snd (LockUpgrade 2 (0, 0) two_readers)) 2)"
    by (simp add: two_readers_def lock_defs)
  moreover have "(0, 0) \<in> exclusive_lock_set (txn_map (snd (LockUpgrade 2 (0, 0) two_readers)) 2)"
    by (simp add: two_readers_def lock_defs)
  ultimately show ?thesis by blast
qed

subsection \<open>A waiter found aborted\<close>

lemma NeedWaitUpdate_loop_frame:
  "NeedWaitUpdate_loop t reqs txns nw ha = Some (nw', ha', txns') \<Longrightarrow> wounds_only_younger t txns txns'"
proof (induction reqs arbitrary: txns nw ha)
  case Nil
  then show ?case by simp
next
  case (Cons it rest)
  show ?case
  proof (cases "txn_id it > t \<and> state (txns (txn_id it)) \<noteq> ABORTED")
    case True
    with Cons.prems
    have "NeedWaitUpdate_loop t rest (SetState (txn_id it) ABORTED txns) nw True = Some (nw', ha', txns')"
      by (auto split: if_splits)
    then have "wounds_only_younger t (SetState (txn_id it) ABORTED txns) txns'" by (rule Cons.IH)
    with True show ?thesis by (auto intro: wounds_only_younger_SetState)
  next
    case False
    with Cons.prems have "txns' = txns" by (auto split: if_splits)
    then show ?thesis by (simp add: wounds_only_younger_refl)
  qed
qed

lemma residue_kept_refl: "state (txn_map w t) = ABORTED \<Longrightarrow> residue_kept t rid w w"
  by (simp add: residue_kept_def)

lemma residue_kept_trans:
  "residue_kept t rid w w1 \<Longrightarrow> residue_kept t rid w1 w2 \<Longrightarrow> residue_kept t rid w w2"
  by (simp add: residue_kept_def)

lemma filter_grant_all:
  "u \<noteq> t \<Longrightarrow> filter (\<lambda>r. txn_id r = t) (grant_all u q) = filter (\<lambda>r. txn_id r = t) q"
  by (induction q) (auto simp: grant_all_def)

lemma filter_erase_first:
  "u \<noteq> t \<Longrightarrow> filter (\<lambda>r. txn_id r = t) (erase_first u q) = filter (\<lambda>r. txn_id r = t) q"
  by (induction q) auto

lemma Lock_check_and_grant_keeps:
  assumes "state (txn_map w t) = ABORTED" and "u \<noteq> t"
  shows "residue_kept t rid w (snd (Lock_check_and_grant u r w))"
proof (cases "NeedWait u (lock_table w r) (txn_map w)")
  case None
  with assms show ?thesis by (simp add: Lock_check_and_grant_def residue_kept_def)
next
  case (Some res)
  then obtain nw ha txns' where res: "NeedWait u (lock_table w r) (txn_map w) = Some (nw, ha, txns')"
    by (cases res) auto
  from NeedWait_frame[OF res] have "txns' t = txn_map w t \<or> txns' t = (txn_map w t)\<lparr>state := ABORTED\<rparr>"
    by (auto simp: wounds_only_younger_def)
  with assms res show ?thesis
    by (auto simp: Lock_check_and_grant_def residue_kept_def requests_of_def Let_def SetState_def
        filter_grant_all)
qed

lemma LockShared_keeps:
  assumes "state (txn_map w t) = ABORTED"
  shows "residue_kept t rid w (snd (LockShared u r w))"
proof (cases "u = t")
  case True
  with assms show ?thesis by (simp add: LockShared_def CheckAbort_def residue_kept_def)
next
  case False
  let ?w1 = "enqueue \<lparr>txn_id = u, lock_mode = SHARED, granted = False\<rparr> r w"
  let ?w2 = "?w1\<lparr>txn_map := (txn_map ?w1)
               (u := (txn_map ?w1 u)\<lparr>shared_lock_set := insert r (shared_lock_set (txn_map ?w1 u))\<rparr>)\<rparr>"
  have a: "residue_kept t rid w ?w2"
    using assms False by (auto simp: residue_kept_def requests_of_def enqueue_def)
  then have "state (txn_map ?w2 t) = ABORTED" by (simp add: residue_kept_def)
  from Lock_check_and_grant_keeps[OF this False]
  have "residue_kept t rid ?w2 (snd (Lock_check_and_grant u r ?w2))" .
  with a have b: "residue_kept t rid w (snd (Lock_check_and_grant u r ?w2))"
    by (rule residue_kept_trans)
  show ?thesis
    using assms False b
    by (simp add: LockShared_def Let_def residue_kept_def requests_of_def SetState_def)
qed

lemma LockExclusive_keeps:
  assumes "state (txn_map w t) = ABORTED"
  shows "residue_kept t rid w (snd (LockExclusive u r w))"
proof (cases "u = t")
  case True
  with assms show ?thesis by (simp add: LockExclusive_def CheckAbort_def residue_kept_def)
next
  case False
  let ?w1 = "enqueue \<lparr>txn_id = u, lock_mode = EXCLUSIVE, granted = False\<rparr> r w"
  let ?w2 = "?w1\<lparr>txn_map := (txn_map ?w1)
               (u := (txn_map ?w1 u)\<lparr>exclusive_lock_set := insert r (exclusive_lock_set (txn_map ?w1 u))\<rparr>)\<rparr>"
  have a: "residue_kept t rid w ?w2"
    using assms False by (auto simp: residue_kept_def requests_of_def enqueue_def)
  then have "state (txn_map ?w2 t) = ABORTED" by (simp add: residue_kept_def)
  from Lock_check_and_grant_keeps[OF this False]
  have "residue_kept t rid ?w2 (snd (Lock_check_and_grant u r ?w2))" .
  with a have b: "residue_kept t rid w (snd (Lock_check_and_grant u r ?w2))"
    by (rule residue_kept_trans)
  show ?thesis
    using assms False b
    by (simp add: LockExclusive_def Let_def residue_kept_def requests_of_def SetState_def)
qed

lemma Lock_wakeup_keeps:
  assumes "state (txn_map w t) = ABORTED"
  shows "residue_kept t rid w (snd (Lock_wakeup u r w))"
proof (cases "u = t")
  case True
  with assms show ?thesis by (simp add: Lock_wakeup_def CheckAbort_def residue_kept_def)
next
  case False
  from Lock_check_and_grant_keeps[OF assms False, of rid r] assms show ?thesis
    by (simp add: Lock_wakeup_def residue_kept_def)
qed

lemma LockUpgrade_check_and_finish_keeps:
  assumes "state (txn_map w t) = ABORTED" and "u \<noteq> t"
  shows "residue_kept t rid w (snd (LockUpgrade_check_and_finish u r w))"
proof (cases "NeedWaitUpdate u (lock_table w r) (txn_map w)")
  case None
  with assms show ?thesis by (simp add: LockUpgrade_check_and_finish_def residue_kept_def)
next
  case (Some res)
  then obtain nw ha txns' where res: "NeedWaitUpdate u (lock_table w r) (txn_map w) = Some (nw, ha, txns')"
    by (cases res) auto
  then have "wounds_only_younger u (txn_map w) txns'"
    unfolding NeedWaitUpdate_def by (rule NeedWaitUpdate_loop_frame)
  then have "txns' t = txn_map w t \<or> txns' t = (txn_map w t)\<lparr>state := ABORTED\<rparr>"
    by (auto simp: wounds_only_younger_def)
  with assms res show ?thesis
    by (auto simp: LockUpgrade_check_and_finish_def LockUpgrade_finish_def residue_kept_def
        requests_of_def Let_def split: option.splits)
qed

lemma LockUpgrade_keeps:
  assumes "state (txn_map w t) = ABORTED"
  shows "residue_kept t rid w (snd (LockUpgrade u r w))"
proof (cases "u = t")
  case True
  with assms show ?thesis by (simp add: LockUpgrade_def CheckAbort_def residue_kept_def)
next
  case False
  from LockUpgrade_check_and_finish_keeps[OF assms False, of rid r] assms False show ?thesis
    by (simp add: LockUpgrade_def Let_def residue_kept_def requests_of_def SetState_def)
qed

lemma LockUpgrade_wakeup_keeps:
  assumes "state (txn_map w t) = ABORTED"
  shows "residue_kept t rid w (snd (LockUpgrade_wakeup u r w))"
proof (cases "u = t")
  case True
  with assms show ?thesis by (simp add: LockUpgrade_wakeup_def CheckAbort_def residue_kept_def)
next
  case False
  from LockUpgrade_check_and_finish_keeps[OF assms False, of rid r] assms show ?thesis
    by (simp add: LockUpgrade_wakeup_def residue_kept_def)
qed

lemma Unlock_keeps:
  assumes "state (txn_map w t) = ABORTED" and "u \<noteq> t \<or> r \<noteq> rid"
  shows "residue_kept t rid w (snd (Unlock u r w))"
  using assms
  by (auto simp: Unlock_def Let_def residue_kept_def requests_of_def filter_erase_first)

lemma lock_step_keeps:
  assumes "state (txn_map w t) = ABORTED" and "c \<noteq> CallUnlock t rid"
  shows "residue_kept t rid w (lock_step c w)"
proof (cases c)
  case (CallUnlock u r)
  with assms(2) have "u \<noteq> t \<or> r \<noteq> rid" by auto
  with CallUnlock show ?thesis using Unlock_keeps[OF assms(1)] by simp
qed (simp_all add: LockShared_keeps LockExclusive_keeps LockUpgrade_keeps Lock_wakeup_keeps
       LockUpgrade_wakeup_keeps assms(1))

lemma lock_steps_keep:
  assumes "state (txn_map w t) = ABORTED" and "CallUnlock t rid \<notin> set calls"
  shows "residue_kept t rid w (fold lock_step calls w)"
  using assms
proof (induction calls arbitrary: w)
  case Nil
  then show ?case by (simp add: residue_kept_refl)
next
  case (Cons c calls)
  from Cons.prems have k: "residue_kept t rid w (lock_step c w)"
    by (intro lock_step_keeps) auto
  then have "state (txn_map (lock_step c w) t) = ABORTED" by (simp add: residue_kept_def)
  from Cons.IH[OF this] Cons.prems(2)
  have "residue_kept t rid (lock_step c w) (fold lock_step calls (lock_step c w))" by simp
  with k show ?case by (auto intro: residue_kept_trans)
qed

lemma erase_first_only:
  "filter (\<lambda>r. txn_id r = t) q = [req] \<Longrightarrow> erase_first t q = filter (\<lambda>r. txn_id r \<noteq> t) q"
proof (induction q)
  case Nil
  then show ?case by simp
next
  case (Cons r q)
  show ?case
  proof (cases "txn_id r = t")
    case True
    with Cons.prems have "filter (\<lambda>r. txn_id r = t) q = []" by simp
    then have "filter (\<lambda>r. txn_id r \<noteq> t) q = q"
      by (induction q) (auto split: if_splits)
    with True show ?thesis by simp
  next
    case False
    with Cons show ?thesis by simp
  qed
qed

text \<open>
  C10 (amended). When \<^verbatim>\<open>LockShared\<close> (\<^verbatim>\<open>LockExclusive\<close>) blocks, it has appended the
  ungranted request to the queue of the rid and added the rid to the shared (exclusive) lock
  set of the transaction. A blocked call that wakes up and finds its transaction
  \<^verbatim>\<open>ABORTED\<close> returns false and changes nothing. From then on no step of the lock manager,
  of this or of another transaction, other than \<^verbatim>\<open>Unlock\<close> of this transaction on this rid
  changes the requests of the transaction in the queue of the rid or whether the rid is in its
  lock sets, and the transaction stays \<^verbatim>\<open>ABORTED\<close>. When the transaction has one request
  only in that queue, \<^verbatim>\<open>Unlock\<close> of the transaction on the rid returns true, leaves the
  requests of the other transactions as they are and none of this one, and takes the rid out
  of both lock sets.
\<close>

theorem aborted_waiter_residue:
  "(LockShared t rid w = (Blocked, w1) \<longrightarrow>
      request_queue (lock_table w1 rid) =
        request_queue (lock_table w rid) @ [\<lparr>txn_id = t, lock_mode = SHARED, granted = False\<rparr>] \<and>
      rid \<in> shared_lock_set (txn_map w1 t)) \<and>
   (LockExclusive t rid w = (Blocked, w1) \<longrightarrow>
      request_queue (lock_table w1 rid) =
        request_queue (lock_table w rid) @ [\<lparr>txn_id = t, lock_mode = EXCLUSIVE, granted = False\<rparr>] \<and>
      rid \<in> exclusive_lock_set (txn_map w1 t)) \<and>
   (state (txn_map w2 t) = ABORTED \<longrightarrow> Lock_wakeup t rid w2 = (Returned False, w2)) \<and>
   (state (txn_map w2 t) = ABORTED \<and> CallUnlock t rid \<notin> set calls \<longrightarrow>
      residue_kept t rid w2 (fold lock_step calls w2)) \<and>
   (requests_of t rid w3 = [req] \<and>
    (rid \<in> shared_lock_set (txn_map w3 t) \<or> rid \<in> exclusive_lock_set (txn_map w3 t)) \<longrightarrow>
      fst (Unlock t rid w3) \<and>
      request_queue (lock_table (snd (Unlock t rid w3)) rid) =
        filter (\<lambda>r. txn_id r \<noteq> t) (request_queue (lock_table w3 rid)) \<and>
      requests_of t rid (snd (Unlock t rid w3)) = [] \<and>
      rid \<notin> shared_lock_set (txn_map (snd (Unlock t rid w3)) t) \<and>
      rid \<notin> exclusive_lock_set (txn_map (snd (Unlock t rid w3)) t))"
proof -
  have a: "request_queue (lock_table w1 rid) =
        request_queue (lock_table w rid) @ [\<lparr>txn_id = t, lock_mode = SHARED, granted = False\<rparr>] \<and>
      rid \<in> shared_lock_set (txn_map w1 t)" if "LockShared t rid w = (Blocked, w1)"
  proof -
    let ?w1 = "enqueue \<lparr>txn_id = t, lock_mode = SHARED, granted = False\<rparr> rid w"
    let ?w2 = "?w1\<lparr>txn_map := (txn_map ?w1)
                 (t := (txn_map ?w1 t)\<lparr>shared_lock_set := insert rid (shared_lock_set (txn_map ?w1 t))\<rparr>)\<rparr>"
    from that have "Lock_check_and_grant t rid ?w2 = (Blocked, w1)"
      by (auto simp: LockShared_def Let_def split: if_splits)
    from Lock_check_and_grant_Blocked[OF this] show ?thesis
      by (simp add: enqueue_def)
  qed
  have b: "request_queue (lock_table w1 rid) =
        request_queue (lock_table w rid) @ [\<lparr>txn_id = t, lock_mode = EXCLUSIVE, granted = False\<rparr>] \<and>
      rid \<in> exclusive_lock_set (txn_map w1 t)" if "LockExclusive t rid w = (Blocked, w1)"
  proof -
    let ?w1 = "enqueue \<lparr>txn_id = t, lock_mode = EXCLUSIVE, granted = False\<rparr> rid w"
    let ?w2 = "?w1\<lparr>txn_map := (txn_map ?w1)
                 (t := (txn_map ?w1 t)\<lparr>exclusive_lock_set := insert rid (exclusive_lock_set (txn_map ?w1 t))\<rparr>)\<rparr>"
    from that have "Lock_check_and_grant t rid ?w2 = (Blocked, w1)"
      by (auto simp: LockExclusive_def Let_def split: if_splits)
    from Lock_check_and_grant_Blocked[OF this] show ?thesis
      by (simp add: enqueue_def)
  qed
  have c: "Lock_wakeup t rid w2 = (Returned False, w2)" if "state (txn_map w2 t) = ABORTED"
    using that by (simp add: Lock_wakeup_def CheckAbort_def)
  have d: "residue_kept t rid w2 (fold lock_step calls w2)"
    if "state (txn_map w2 t) = ABORTED" "CallUnlock t rid \<notin> set calls"
    using that by (rule lock_steps_keep)
  have e: "fst (Unlock t rid w3) \<and>
      request_queue (lock_table (snd (Unlock t rid w3)) rid) =
        filter (\<lambda>r. txn_id r \<noteq> t) (request_queue (lock_table w3 rid)) \<and>
      requests_of t rid (snd (Unlock t rid w3)) = [] \<and>
      rid \<notin> shared_lock_set (txn_map (snd (Unlock t rid w3)) t) \<and>
      rid \<notin> exclusive_lock_set (txn_map (snd (Unlock t rid w3)) t)"
    if r: "requests_of t rid w3 = [req]"
      and l: "rid \<in> shared_lock_set (txn_map w3 t) \<or> rid \<in> exclusive_lock_set (txn_map w3 t)"
  proof -
    from r have f: "filter (\<lambda>r. txn_id r = t) (request_queue (lock_table w3 rid)) = [req]"
      by (simp add: requests_of_def)
    then have ex: "list_ex (\<lambda>r. txn_id r = t) (request_queue (lock_table w3 rid))"
      by (auto simp: list_ex_iff filter_eq_Cons_iff)
    have q: "request_queue (lock_table (snd (Unlock t rid w3)) rid) =
               erase_first t (request_queue (lock_table w3 rid))"
      using ex l by (auto simp: Unlock_def Let_def)
    have "fst (Unlock t rid w3)" using ex l by (auto simp: Unlock_def Let_def)
    moreover have "rid \<notin> shared_lock_set (txn_map (snd (Unlock t rid w3)) t)"
      "rid \<notin> exclusive_lock_set (txn_map (snd (Unlock t rid w3)) t)"
      using ex l by (auto simp: Unlock_def Let_def)
    ultimately show ?thesis
      unfolding q erase_first_only[OF f] by (simp add: requests_of_def q erase_first_only[OF f])
  qed
  from a b c d e show ?thesis by blast
qed

text \<open>The theorem at transaction 2, which waits for the shared lock behind the exclusive
  lock of 1 and is wounded by 0 (and at transaction 3 for \<^verbatim>\<open>LockExclusive\<close>).\<close>

theorem aborted_waiter_residue_witness:
  "LockShared 2 (0, 0) holder_1 = (Blocked, waiter_2) \<and>
   request_queue (lock_table waiter_2 (0, 0)) =
     [\<lparr>txn_id = 1, lock_mode = EXCLUSIVE, granted = True\<rparr>,
      \<lparr>txn_id = 2, lock_mode = SHARED, granted = False\<rparr>] \<and>
   (0, 0) \<in> shared_lock_set (txn_map waiter_2 2) \<and>
   fst (LockExclusive 3 (0, 0) holder_1) = Blocked \<and>
   request_queue (lock_table (snd (LockExclusive 3 (0, 0) holder_1)) (0, 0)) =
     [\<lparr>txn_id = 1, lock_mode = EXCLUSIVE, granted = True\<rparr>,
      \<lparr>txn_id = 3, lock_mode = EXCLUSIVE, granted = False\<rparr>] \<and>
   (0, 0) \<in> exclusive_lock_set (txn_map (snd (LockExclusive 3 (0, 0) holder_1)) 3) \<and>
   state (txn_map waiter_2_wounded 2) = ABORTED \<and>
   Lock_wakeup 2 (0, 0) waiter_2_wounded = (Returned False, waiter_2_wounded) \<and>
   residue_kept 2 (0, 0) waiter_2_wounded
     (fold lock_step
        [WakeLock 2 (0, 0), CallLockShared 3 (0, 0), CallUnlock 1 (0, 0),
         CallLockUpgrade 2 (0, 0), CallUnlock 2 (0, 1), CallLockExclusive 2 (0, 0)]
        waiter_2_wounded) \<and>
   requests_of 2 (0, 0) waiter_2_wounded = [\<lparr>txn_id = 2, lock_mode = SHARED, granted = False\<rparr>] \<and>
   (0, 0) \<in> shared_lock_set (txn_map waiter_2_wounded 2) \<and>
   fst (Unlock 2 (0, 0) waiter_2_wounded) \<and>
   request_queue (lock_table (snd (Unlock 2 (0, 0) waiter_2_wounded)) (0, 0)) =
     [\<lparr>txn_id = 1, lock_mode = EXCLUSIVE, granted = True\<rparr>,
      \<lparr>txn_id = 0, lock_mode = EXCLUSIVE, granted = True\<rparr>] \<and>
   requests_of 2 (0, 0) (snd (Unlock 2 (0, 0) waiter_2_wounded)) = [] \<and>
   (0, 0) \<notin> shared_lock_set (txn_map (snd (Unlock 2 (0, 0) waiter_2_wounded)) 2)"
proof -
  have s: "LockShared 2 (0, 0) holder_1 = (Blocked, waiter_2)"
    by (simp add: waiter_2_def holder_1_def lock_defs)
  have "fst (LockExclusive 3 (0, 0) holder_1) = Blocked"
    by (simp add: holder_1_def lock_defs)
  then obtain w3 where x: "LockExclusive 3 (0, 0) holder_1 = (Blocked, w3)"
    by (cases "LockExclusive 3 (0, 0) holder_1") simp
  have q1: "request_queue (lock_table holder_1 (0, 0)) =
              [\<lparr>txn_id = 1, lock_mode = EXCLUSIVE, granted = True\<rparr>]"
    by (simp add: holder_1_def lock_defs)
  have ab: "state (txn_map waiter_2_wounded 2) = ABORTED"
    by (simp add: waiter_2_wounded_def waiter_2_def holder_1_def lock_defs)
  have q2: "request_queue (lock_table waiter_2_wounded (0, 0)) =
     [\<lparr>txn_id = 1, lock_mode = EXCLUSIVE, granted = True\<rparr>,
      \<lparr>txn_id = 2, lock_mode = SHARED, granted = False\<rparr>,
      \<lparr>txn_id = 0, lock_mode = EXCLUSIVE, granted = True\<rparr>]"
    by (simp add: waiter_2_wounded_def waiter_2_def holder_1_def lock_defs)
  have r2: "requests_of 2 (0, 0) waiter_2_wounded = [\<lparr>txn_id = 2, lock_mode = SHARED, granted = False\<rparr>]"
    by (simp add: requests_of_def q2)
  have sh: "(0, 0) \<in> shared_lock_set (txn_map waiter_2_wounded 2)"
    by (simp add: waiter_2_wounded_def waiter_2_def holder_1_def lock_defs)
  have nc: "CallUnlock 2 (0, 0) \<notin> set [WakeLock 2 (0, 0), CallLockShared 3 (0, 0), CallUnlock 1 (0, 0),
         CallLockUpgrade 2 (0, 0), CallUnlock 2 (0, 1), CallLockExclusive 2 (0, 0)]"
    by simp
  note t2 = aborted_waiter_residue[of 2 "(0, 0)" holder_1 waiter_2 waiter_2_wounded
         "[WakeLock 2 (0, 0), CallLockShared 3 (0, 0), CallUnlock 1 (0, 0),
           CallLockUpgrade 2 (0, 0), CallUnlock 2 (0, 1), CallLockExclusive 2 (0, 0)]"
         waiter_2_wounded "\<lparr>txn_id = 2, lock_mode = SHARED, granted = False\<rparr>"]
  note t3 = aborted_waiter_residue[of 3 "(0, 0)" holder_1 w3 waiter_2_wounded "[]" waiter_2_wounded
         "\<lparr>txn_id = 2, lock_mode = SHARED, granted = False\<rparr>"]
  have c1: "request_queue (lock_table waiter_2 (0, 0)) =
     [\<lparr>txn_id = 1, lock_mode = EXCLUSIVE, granted = True\<rparr>,
      \<lparr>txn_id = 2, lock_mode = SHARED, granted = False\<rparr>]"
    and c2: "(0, 0) \<in> shared_lock_set (txn_map waiter_2 2)"
    using t2 s q1 by simp_all
  have c3: "request_queue (lock_table (snd (LockExclusive 3 (0, 0) holder_1)) (0, 0)) =
     [\<lparr>txn_id = 1, lock_mode = EXCLUSIVE, granted = True\<rparr>,
      \<lparr>txn_id = 3, lock_mode = EXCLUSIVE, granted = False\<rparr>]"
    and c4: "(0, 0) \<in> exclusive_lock_set (txn_map (snd (LockExclusive 3 (0, 0) holder_1)) 3)"
    using t3 x q1 by simp_all
  have c5: "Lock_wakeup 2 (0, 0) waiter_2_wounded = (Returned False, waiter_2_wounded)"
    using t2 ab by blast
  have c6: "residue_kept 2 (0, 0) waiter_2_wounded
     (fold lock_step
        [WakeLock 2 (0, 0), CallLockShared 3 (0, 0), CallUnlock 1 (0, 0),
         CallLockUpgrade 2 (0, 0), CallUnlock 2 (0, 1), CallLockExclusive 2 (0, 0)]
        waiter_2_wounded)"
    using t2 ab nc by blast
  have c7: "fst (Unlock 2 (0, 0) waiter_2_wounded) \<and>
      request_queue (lock_table (snd (Unlock 2 (0, 0) waiter_2_wounded)) (0, 0)) =
        filter (\<lambda>r. txn_id r \<noteq> 2) (request_queue (lock_table waiter_2_wounded (0, 0))) \<and>
      requests_of 2 (0, 0) (snd (Unlock 2 (0, 0) waiter_2_wounded)) = [] \<and>
      (0, 0) \<notin> shared_lock_set (txn_map (snd (Unlock 2 (0, 0) waiter_2_wounded)) 2)"
    using t2 r2 sh by blast
  then have c8: "request_queue (lock_table (snd (Unlock 2 (0, 0) waiter_2_wounded)) (0, 0)) =
     [\<lparr>txn_id = 1, lock_mode = EXCLUSIVE, granted = True\<rparr>,
      \<lparr>txn_id = 0, lock_mode = EXCLUSIVE, granted = True\<rparr>]"
    by (simp add: q2)
  from s c1 c2 x c3 c4 ab c5 c6 r2 sh c7 c8 show ?thesis
    by (intro conjI) simp_all
qed

text \<open>
  Without the restriction to one request the last part fails. Transactions 1 and 2 hold the
  shared lock; 2 calls \<^verbatim>\<open>LockExclusive\<close>, which enqueues a second request of 2 and blocks;
  0 is granted the exclusive lock and wounds 2; 2 wakes up and returns false. \<^verbatim>\<open>Unlock\<close> of
  2 then erases the first request of 2 in the queue, the granted shared one, and takes the rid
  out of both lock sets: the ungranted exclusive request stays in the queue, and a further
  \<^verbatim>\<open>Unlock\<close> of 2 returns false and leaves it there.
\<close>

theorem aborted_waiter_residue_counterexample:
  "request_queue (lock_table two_readers (0, 0)) =
     [\<lparr>txn_id = 1, lock_mode = SHARED, granted = True\<rparr>,
      \<lparr>txn_id = 2, lock_mode = SHARED, granted = True\<rparr>] \<and>
   LockExclusive 2 (0, 0) two_readers = (Blocked, two_requests) \<and>
   request_queue (lock_table two_requests (0, 0)) =
     [\<lparr>txn_id = 1, lock_mode = SHARED, granted = True\<rparr>,
      \<lparr>txn_id = 2, lock_mode = SHARED, granted = True\<rparr>,
      \<lparr>txn_id = 2, lock_mode = EXCLUSIVE, granted = False\<rparr>] \<and>
   (0, 0) \<in> exclusive_lock_set (txn_map two_requests 2) \<and>
   fst (LockExclusive 0 (0, 0) two_requests) = Returned True \<and>
   state (txn_map two_requests_wounded 2) = ABORTED \<and>
   Lock_wakeup 2 (0, 0) two_requests_wounded = (Returned False, two_requests_wounded) \<and>
   fst (Unlock 2 (0, 0) two_requests_wounded) \<and>
   request_queue (lock_table (snd (Unlock 2 (0, 0) two_requests_wounded)) (0, 0)) =
     [\<lparr>txn_id = 1, lock_mode = SHARED, granted = True\<rparr>,
      \<lparr>txn_id = 2, lock_mode = EXCLUSIVE, granted = False\<rparr>,
      \<lparr>txn_id = 0, lock_mode = EXCLUSIVE, granted = True\<rparr>] \<and>
   (0, 0) \<notin> exclusive_lock_set (txn_map (snd (Unlock 2 (0, 0) two_requests_wounded)) 2) \<and>
   Unlock 2 (0, 0) (snd (Unlock 2 (0, 0) two_requests_wounded)) =
     (False, snd (Unlock 2 (0, 0) two_requests_wounded))"
proof -
  have tr: "request_queue (lock_table two_readers (0, 0)) =
     [\<lparr>txn_id = 1, lock_mode = SHARED, granted = True\<rparr>,
      \<lparr>txn_id = 2, lock_mode = SHARED, granted = True\<rparr>]"
    by (simp add: two_readers_def lock_defs)
  have "fst (LockExclusive 2 (0, 0) two_readers) = Blocked"
    by (simp add: two_readers_def lock_defs)
  then have b: "LockExclusive 2 (0, 0) two_readers = (Blocked, two_requests)"
    unfolding two_requests_def by (cases "LockExclusive 2 (0, 0) two_readers") simp
  have q: "request_queue (lock_table two_requests (0, 0)) =
     [\<lparr>txn_id = 1, lock_mode = SHARED, granted = True\<rparr>,
      \<lparr>txn_id = 2, lock_mode = SHARED, granted = True\<rparr>,
      \<lparr>txn_id = 2, lock_mode = EXCLUSIVE, granted = False\<rparr>]"
    by (simp add: two_requests_def two_readers_def lock_defs)
  have x: "(0, 0) \<in> exclusive_lock_set (txn_map two_requests 2)"
    by (simp add: two_requests_def two_readers_def lock_defs)
  have g: "fst (LockExclusive 0 (0, 0) two_requests) = Returned True"
    by (simp add: two_requests_def two_readers_def lock_defs)
  have ab: "state (txn_map two_requests_wounded 2) = ABORTED"
    by (simp add: two_requests_wounded_def two_requests_def two_readers_def lock_defs)
  then have wk: "Lock_wakeup 2 (0, 0) two_requests_wounded = (Returned False, two_requests_wounded)"
    by (simp add: Lock_wakeup_def CheckAbort_def)
  have u: "fst (Unlock 2 (0, 0) two_requests_wounded)"
    by (simp add: two_requests_wounded_def two_requests_def two_readers_def lock_defs)
  have uq: "request_queue (lock_table (snd (Unlock 2 (0, 0) two_requests_wounded)) (0, 0)) =
     [\<lparr>txn_id = 1, lock_mode = SHARED, granted = True\<rparr>,
      \<lparr>txn_id = 2, lock_mode = EXCLUSIVE, granted = False\<rparr>,
      \<lparr>txn_id = 0, lock_mode = EXCLUSIVE, granted = True\<rparr>]"
    by (simp add: two_requests_wounded_def two_requests_def two_readers_def lock_defs)
  have ns: "(0, 0) \<notin> shared_lock_set (txn_map (snd (Unlock 2 (0, 0) two_requests_wounded)) 2)"
    by (simp add: two_requests_wounded_def two_requests_def two_readers_def lock_defs)
  have nx: "(0, 0) \<notin> exclusive_lock_set (txn_map (snd (Unlock 2 (0, 0) two_requests_wounded)) 2)"
    by (simp add: two_requests_wounded_def two_requests_def two_readers_def lock_defs)
  from ns nx have u2: "Unlock 2 (0, 0) (snd (Unlock 2 (0, 0) two_requests_wounded)) =
     (False, snd (Unlock 2 (0, 0) two_requests_wounded))"
    by (simp add: Unlock_def)
  from tr b q x g ab wk u uq nx u2 show ?thesis by simp
qed

section \<open>Extendible hash table: theorems\<close>

subsection \<open>Slot indices and their low bits\<close>

lemma and_mask_take_bit: "(h::nat) AND (2 ^ n - 1) = take_bit n h"
  by (simp add: take_bit_eq_mask mask_eq_exp_minus_1)

lemma take_bit_eq_iff_bits:
  "take_bit d (a::nat) = take_bit d b \<longleftrightarrow> (\<forall>n<d. bit a n = bit b n)"
  by (auto simp: bit_eq_iff bit_take_bit_iff)

lemma bit_flip: "bit ((s::nat) XOR 2 ^ d) n \<longleftrightarrow> (bit s n \<noteq> (n = d))"
  by (auto simp: bit_xor_iff bit_exp_iff)

lemma class_split: "take_bit d (j::nat) = take_bit d s \<longleftrightarrow>
   (take_bit (Suc d) j = take_bit (Suc d) s \<or> take_bit (Suc d) j = take_bit (Suc d) (s XOR 2 ^ d))"
  unfolding take_bit_eq_iff_bits by (auto simp: bit_flip less_Suc_eq)

lemma class_image_differs: "take_bit (Suc d) ((s::nat) XOR 2 ^ d) \<noteq> take_bit (Suc d) s"
  unfolding take_bit_eq_iff_bits by (auto simp: bit_flip less_Suc_eq)

lemma image_in_range: "(s::nat) < 2 ^ g \<Longrightarrow> d < g \<Longrightarrow> s XOR 2 ^ d < 2 ^ g"
proof -
  assume a: "s < 2 ^ g" "d < g"
  have "take_bit g (s XOR 2 ^ d) = take_bit g s XOR take_bit g (2 ^ d)" by (simp add: take_bit_xor)
  also have "\<dots> = s XOR 2 ^ d" using a by (simp add: take_bit_nat_eq_self_iff[THEN iffD2])
  finally have "take_bit g (s XOR 2 ^ d) = s XOR 2 ^ d" .
  then show ?thesis by (simp only: take_bit_nat_eq_self_iff)
qed

lemma cong_below:
  fixes k i D :: nat
  assumes "k mod D = i mod D" "k < i"
  shows "k + D \<le> i"
proof -
  have "D dvd i - k" using assms by (metis mod_eq_dvd_iff_nat less_imp_le_nat)
  moreover have "0 < i - k" using assms by simp
  ultimately have "D \<le> i - k" by (rule dvd_imp_le)
  then show ?thesis using assms by simp
qed

lemma loop_down_effect:
  assumes "local_depths d src = L"
  shows "global_depth (SplitInsert_loop_down src e pid i d) = global_depth d \<and>
         dir_page_id (SplitInsert_loop_down src e pid i d) = dir_page_id d \<and>
         (\<forall>k. bucket_page_ids (SplitInsert_loop_down src e pid i d) k =
               (if k \<le> i \<and> k mod 2 ^ e = i mod 2 ^ e then pid else bucket_page_ids d k)) \<and>
         (\<forall>k. local_depths (SplitInsert_loop_down src e pid i d) k =
               (if k \<le> i \<and> k mod 2 ^ e = i mod 2 ^ e then L else local_depths d k))"
  using assms
proof (induction src e pid i d rule: SplitInsert_loop_down.induct)
  case (1 src e pid i d)
  let ?d2 = "SetLocalDepth i (local_depths (SetBucketPageId i pid d) src) (SetBucketPageId i pid d)"
  have l2: "local_depths ?d2 src = L" using 1(2)
    by (simp add: SetLocalDepth_def SetBucketPageId_def)
  have d2: "global_depth ?d2 = global_depth d" "dir_page_id ?d2 = dir_page_id d"
    "bucket_page_ids ?d2 = (bucket_page_ids d)(i := pid)"
    "local_depths ?d2 = (local_depths d)(i := L)"
    using 1(2) by (simp_all add: SetLocalDepth_def SetBucketPageId_def)
  show ?case
  proof (cases "i < 2 ^ e")
    case True
    have "k = i" if "k \<le> i" "k mod 2 ^ e = i mod 2 ^ e" for k
    proof (rule ccontr)
      assume "k \<noteq> i"
      then have "k < i" using that by simp
      from cong_below[OF that(2) this] True show False by simp
    qed
    then have eq: "(k \<le> i \<and> k mod 2 ^ e = i mod 2 ^ e) \<longleftrightarrow> k = i" for k by auto
    have "SplitInsert_loop_down src e pid i d = ?d2"
      using True by (subst SplitInsert_loop_down.simps) (simp add: Let_def)
    then show ?thesis using d2 by (simp add: eq)
  next
    case False
    have ih: "global_depth (SplitInsert_loop_down src e pid (i - 2 ^ e) ?d2) = global_depth ?d2 \<and>
         dir_page_id (SplitInsert_loop_down src e pid (i - 2 ^ e) ?d2) = dir_page_id ?d2 \<and>
         (\<forall>k. bucket_page_ids (SplitInsert_loop_down src e pid (i - 2 ^ e) ?d2) k =
               (if k \<le> i - 2 ^ e \<and> k mod 2 ^ e = (i - 2 ^ e) mod 2 ^ e then pid else bucket_page_ids ?d2 k)) \<and>
         (\<forall>k. local_depths (SplitInsert_loop_down src e pid (i - 2 ^ e) ?d2) k =
               (if k \<le> i - 2 ^ e \<and> k mod 2 ^ e = (i - 2 ^ e) mod 2 ^ e then L else local_depths ?d2 k))"
      by (rule 1(1)[OF refl refl False l2])
    have ge: "2 ^ e \<le> i" using False by simp
    then have m: "(i - 2 ^ e) mod 2 ^ e = i mod 2 ^ e"
      by (metis le_mod_geq mod_mod_trivial)
    have eq: "(k \<le> i \<and> k mod 2 ^ e = i mod 2 ^ e) \<longleftrightarrow>
              (k = i \<or> (k \<le> i - 2 ^ e \<and> k mod 2 ^ e = (i - 2 ^ e) mod 2 ^ e))" for k
    proof -
      have "k \<le> i - 2 ^ e" if "k \<le> i" "k mod 2 ^ e = i mod 2 ^ e" "k \<noteq> i"
      proof -
        from that have "k < i" by simp
        from cong_below[OF that(2) this] show ?thesis by simp
      qed
      then show ?thesis using m ge by auto
    qed
    have "SplitInsert_loop_down src e pid i d = SplitInsert_loop_down src e pid (i - 2 ^ e) ?d2"
      using False by (subst SplitInsert_loop_down.simps) (simp add: Let_def)
    then show ?thesis using ih d2 by (auto simp: eq)
  qed
qed


lemma loop_up_effect:
  assumes "local_depths d src = L"
  shows "global_depth (SplitInsert_loop_up src e pid i d) = global_depth d \<and>
         dir_page_id (SplitInsert_loop_up src e pid i d) = dir_page_id d \<and>
         (\<forall>k. bucket_page_ids (SplitInsert_loop_up src e pid i d) k =
               (if i \<le> k \<and> k < DirSize d \<and> k mod 2 ^ e = i mod 2 ^ e then pid else bucket_page_ids d k)) \<and>
         (\<forall>k. local_depths (SplitInsert_loop_up src e pid i d) k =
               (if i \<le> k \<and> k < DirSize d \<and> k mod 2 ^ e = i mod 2 ^ e then L else local_depths d k))"
  using assms
proof (induction src e pid i d rule: SplitInsert_loop_up.induct)
  case (1 src e pid i d)
  let ?d2 = "SetLocalDepth i (local_depths (SetBucketPageId i pid d) src) (SetBucketPageId i pid d)"
  have l2: "local_depths ?d2 src = L" using 1(2)
    by (simp add: SetLocalDepth_def SetBucketPageId_def)
  have d2: "global_depth ?d2 = global_depth d" "dir_page_id ?d2 = dir_page_id d"
    "bucket_page_ids ?d2 = (bucket_page_ids d)(i := pid)"
    "local_depths ?d2 = (local_depths d)(i := L)" "DirSize ?d2 = DirSize d"
    using 1(2) by (simp_all add: SetLocalDepth_def SetBucketPageId_def DirSize_def)
  show ?case
  proof (cases "i < DirSize d")
    case False
    have "SplitInsert_loop_up src e pid i d = d"
      using False by (subst SplitInsert_loop_up.simps) simp
    then show ?thesis using False by auto
  next
    case True
    have ih: "global_depth (SplitInsert_loop_up src e pid (i + 2 ^ e) ?d2) = global_depth ?d2 \<and>
         dir_page_id (SplitInsert_loop_up src e pid (i + 2 ^ e) ?d2) = dir_page_id ?d2 \<and>
         (\<forall>k. bucket_page_ids (SplitInsert_loop_up src e pid (i + 2 ^ e) ?d2) k =
               (if i + 2 ^ e \<le> k \<and> k < DirSize ?d2 \<and> k mod 2 ^ e = (i + 2 ^ e) mod 2 ^ e then pid else bucket_page_ids ?d2 k)) \<and>
         (\<forall>k. local_depths (SplitInsert_loop_up src e pid (i + 2 ^ e) ?d2) k =
               (if i + 2 ^ e \<le> k \<and> k < DirSize ?d2 \<and> k mod 2 ^ e = (i + 2 ^ e) mod 2 ^ e then L else local_depths ?d2 k))"
      by (rule 1(1)[OF True refl refl l2])
    have eq: "(i \<le> k \<and> k < DirSize d \<and> k mod 2 ^ e = i mod 2 ^ e) \<longleftrightarrow>
              (k = i \<or> (i + 2 ^ e \<le> k \<and> k < DirSize d \<and> k mod 2 ^ e = (i + 2 ^ e) mod 2 ^ e))" for k
    proof -
      have "i + 2 ^ e \<le> k" if "i \<le> k" "k mod 2 ^ e = i mod 2 ^ e" "k \<noteq> i"
      proof -
        from that have "i < k" by simp
        from cong_below[OF that(2)[symmetric] this] show ?thesis by simp
      qed
      then show ?thesis using True by auto
    qed
    have "SplitInsert_loop_up src e pid i d = SplitInsert_loop_up src e pid (i + 2 ^ e) ?d2"
      using True by (subst SplitInsert_loop_up.simps) (simp add: Let_def)
    then show ?thesis using ih d2 by (auto simp: eq)
  qed
qed

text \<open>Down then up from slot i: all slots congruent to i below the directory size.\<close>

lemma loops_effect:
  fixes e :: nat and pid :: ht_page_id
  assumes "local_depths d src = L" "i < DirSize d"
    and d': "d' = SplitInsert_loop_up src e pid i (SplitInsert_loop_down src e pid i d)"
  shows "global_depth d' = global_depth d \<and> dir_page_id d' = dir_page_id d \<and>
         (\<forall>k. bucket_page_ids d' k =
               (if k < DirSize d \<and> take_bit e k = take_bit e i then pid else bucket_page_ids d k)) \<and>
         (\<forall>k. local_depths d' k =
               (if k < DirSize d \<and> take_bit e k = take_bit e i then L else local_depths d k))"
proof -
  let ?dd = "SplitInsert_loop_down src e pid i d"
  note dn = loop_down_effect[OF assms(1), of e pid i]
  have ls: "local_depths ?dd src = L" using dn assms(1) by simp
  have sz: "DirSize ?dd = DirSize d" using dn by (simp add: DirSize_def)
  note up = loop_up_effect[OF ls, of e pid i]
  show ?thesis
    unfolding d' using up dn assms(2) sz
    by (auto simp: take_bit_eq_mod)
qed


lemma dir_inv_split:
  assumes inv: "dir_inv d1"
    and s: "s < 2 ^ global_depth d1"
    and dd: "local_depths d1 s = dd" "dd < global_depth d1"
    and fresh: "\<forall>k < 2 ^ global_depth d1. bucket_page_ids d1 k \<noteq> q"
    and g: "global_depth d8 = global_depth d1"
    and pids: "\<forall>k < 2 ^ global_depth d1. bucket_page_ids d8 k =
                 (if take_bit (Suc dd) k = take_bit (Suc dd) (s XOR 2 ^ dd) then q
                  else bucket_page_ids d1 k)"
    and lds: "\<forall>k < 2 ^ global_depth d1. local_depths d8 k =
                 (if take_bit dd k = take_bit dd s then Suc dd else local_depths d1 k)"
  shows "dir_inv d8"
proof -
  let ?g = "global_depth d1"
  let ?img = "s XOR 2 ^ dd"
  let ?p = "bucket_page_ids d1 s"
  have old: "bucket_page_ids d1 k = ?p \<longleftrightarrow> take_bit dd s = take_bit dd k" if "k < 2 ^ ?g" for k
    using inv s dd(1) that unfolding dir_inv_def by (metis (no_types, lifting))
  have ldle: "local_depths d1 k \<le> ?g" if "k < 2 ^ ?g" for k
    using inv that unfolding dir_inv_def by blast
  have oldi: "bucket_page_ids d1 i = bucket_page_ids d1 j \<longleftrightarrow>
              take_bit (local_depths d1 i) i = take_bit (local_depths d1 i) j"
    if "i < 2 ^ ?g" "j < 2 ^ ?g" for i j
    using inv that unfolding dir_inv_def by blast
  have pq: "?p \<noteq> q" using fresh s by blast
  show ?thesis
    unfolding dir_inv_def g
  proof (intro allI impI conjI)
    fix i :: nat assume i: "i < 2 ^ ?g"
    show "local_depths d8 i \<le> ?g"
      using lds[rule_format, OF i] ldle[OF i] dd(2) by (simp split: if_splits)
  next
    fix i j :: nat assume i: "i < 2 ^ ?g" and j: "j < 2 ^ ?g"
    note ci = class_split[of dd i s] and cj = class_split[of dd j s]
      and cd = class_image_differs[of dd s]
    consider (img) "take_bit (Suc dd) i = take_bit (Suc dd) ?img"
      | (spl) "take_bit (Suc dd) i = take_bit (Suc dd) s"
      | (other) "take_bit dd i \<noteq> take_bit dd s"
      using ci by blast
    then show "bucket_page_ids d8 i = bucket_page_ids d8 j \<longleftrightarrow>
               take_bit (local_depths d8 i) i = take_bit (local_depths d8 i) j"
    proof cases
      case img
      then have "take_bit dd i = take_bit dd s" using ci by blast
      then have l: "local_depths d8 i = Suc dd" using lds[rule_format, OF i] by (simp only: if_True simp_thms)
      have pi: "bucket_page_ids d8 i = q" using pids[rule_format, OF i] img by (simp only: if_True simp_thms)
      have "bucket_page_ids d8 j = q \<longleftrightarrow> take_bit (Suc dd) j = take_bit (Suc dd) ?img"
      proof (cases "take_bit (Suc dd) j = take_bit (Suc dd) ?img")
        case True
        then show ?thesis using pids[rule_format, OF j] by (simp only: if_True simp_thms)
      next
        case False
        then have "bucket_page_ids d8 j = bucket_page_ids d1 j"
          using pids[rule_format, OF j] by (simp only: if_False simp_thms)
        then show ?thesis using False fresh[rule_format, OF j] by metis
      qed
      then show ?thesis unfolding l pi using img by metis
    next
      case spl
      then have c: "take_bit dd i = take_bit dd s" using ci by blast
      then have l: "local_depths d8 i = Suc dd" using lds[rule_format, OF i] by (simp only: if_True simp_thms)
      have ni: "take_bit (Suc dd) i \<noteq> take_bit (Suc dd) ?img" using spl cd by metis
      have "bucket_page_ids d8 i = bucket_page_ids d1 i"
        using pids[rule_format, OF i] ni by (simp only: if_False simp_thms)
      then have pi: "bucket_page_ids d8 i = ?p" using old[OF i] c by metis
      have "bucket_page_ids d8 j = ?p \<longleftrightarrow> take_bit (Suc dd) j = take_bit (Suc dd) s"
      proof (cases "take_bit (Suc dd) j = take_bit (Suc dd) ?img")
        case True
        then have "bucket_page_ids d8 j = q" using pids[rule_format, OF j] by (simp only: if_True simp_thms)
        then show ?thesis using pq True cd by metis
      next
        case False
        then have "bucket_page_ids d8 j = bucket_page_ids d1 j"
          using pids[rule_format, OF j] by (simp only: if_False simp_thms)
        then show ?thesis using old[OF j] cj False by metis
      qed
      then show ?thesis unfolding l pi using spl by metis
    next
      case other
      then have l: "local_depths d8 i = local_depths d1 i"
        using lds[rule_format, OF i] by (simp only: if_False simp_thms)
      have ni: "take_bit (Suc dd) i \<noteq> take_bit (Suc dd) ?img" using other ci by blast
      have pi: "bucket_page_ids d8 i = bucket_page_ids d1 i"
        using pids[rule_format, OF i] ni by (simp only: if_False simp_thms)
      have np: "bucket_page_ids d1 i \<noteq> ?p" using old[OF i] other by metis
      have nq: "bucket_page_ids d1 i \<noteq> q" using fresh i by blast
      have "bucket_page_ids d8 j = bucket_page_ids d1 i \<longleftrightarrow> bucket_page_ids d1 j = bucket_page_ids d1 i"
      proof (cases "take_bit (Suc dd) j = take_bit (Suc dd) ?img")
        case True
        then have "bucket_page_ids d8 j = q" using pids[rule_format, OF j] by (simp only: if_True simp_thms)
        moreover have "bucket_page_ids d1 j = ?p" using True cj old[OF j] by metis
        ultimately show ?thesis using np nq by metis
      next
        case False
        then show ?thesis using pids[rule_format, OF j] by (simp only: if_False simp_thms)
      qed
      then show ?thesis unfolding l pi using oldi[OF i j] by metis
    qed
  qed
qed


lemma SplitInsert_directory_effect:
  assumes inv: "dir_inv d1"
    and s: "s < 2 ^ global_depth d1"
    and dd: "local_depths d1 s = dd" "dd < global_depth d1"
    and d8: "d8 = SplitInsert_directory s (bucket_page_ids d1 s) q d1"
  shows "global_depth d8 = global_depth d1"
    and "\<forall>k < 2 ^ global_depth d1. bucket_page_ids d8 k =
                 (if take_bit (Suc dd) k = take_bit (Suc dd) (s XOR 2 ^ dd) then q
                  else bucket_page_ids d1 k)"
    and "\<forall>k < 2 ^ global_depth d1. local_depths d8 k =
                 (if take_bit dd k = take_bit dd s then Suc dd else local_depths d1 k)"
proof -
  let ?img = "s XOR 2 ^ dd"
  let ?p = "bucket_page_ids d1 s"
  let ?d4 = "SetBucketPageId ?img q (SetLocalDepth ?img (Suc dd) (IncrLocalDepth s d1))"
  let ?d6 = "SplitInsert_loop_up s (Suc dd) ?p s (SplitInsert_loop_down s (Suc dd) ?p s ?d4)"
  let ?d8 = "SplitInsert_loop_up s (Suc dd) q ?img (SplitInsert_loop_down s (Suc dd) q ?img ?d6)"
  have img: "?img < 2 ^ global_depth d1" by (rule image_in_range[OF s dd(2)])
  have d4: "global_depth ?d4 = global_depth d1"
    "local_depths ?d4 = (local_depths d1)(s := Suc dd, ?img := Suc dd)"
    "bucket_page_ids ?d4 = (bucket_page_ids d1)(?img := q)"
    using dd(1) by (simp_all add: SetBucketPageId_def SetLocalDepth_def IncrLocalDepth_def)
  have l4: "local_depths ?d4 s = Suc dd" by (simp add: d4 del: fun_upd_apply) simp
  have s4: "s < DirSize ?d4" using s d4(1) by (simp only: DirSize_def)
  note e6 = loops_effect[OF l4 s4 refl, of "Suc dd" ?p]
  have l6: "local_depths ?d6 s = Suc dd" using e6 l4 by (simp only: split: if_splits) metis
  have g6: "global_depth ?d6 = global_depth d1" using e6 d4(1) by metis
  have i6: "?img < DirSize ?d6" using img g6 by (simp only: DirSize_def)
  note e8 = loops_effect[OF l6 i6 refl, of "Suc dd" q]
  have eq: "d8 = ?d8"
    unfolding d8 SplitInsert_directory_def Let_def GetSplitImageIndex_def
    using dd(1) by (simp add: IncrLocalDepth_def SetLocalDepth_def SetBucketPageId_def)
  show "global_depth d8 = global_depth d1" unfolding eq using e8 g6 by metis
  have old: "bucket_page_ids d1 k = ?p \<longleftrightarrow> take_bit dd s = take_bit dd k"
    if "k < 2 ^ global_depth d1" for k
    using inv s dd(1) that unfolding dir_inv_def by (metis (no_types, lifting))
  show "\<forall>k < 2 ^ global_depth d1. bucket_page_ids d8 k =
                 (if take_bit (Suc dd) k = take_bit (Suc dd) ?img then q else bucket_page_ids d1 k)"
  proof (intro allI impI)
    fix k :: nat assume k: "k < 2 ^ global_depth d1"
    have k6: "k < DirSize ?d6" and k4: "k < DirSize ?d4"
      using k g6 d4(1) by (simp_all only: DirSize_def)
    show "bucket_page_ids d8 k =
                 (if take_bit (Suc dd) k = take_bit (Suc dd) ?img then q else bucket_page_ids d1 k)"
    proof (cases "take_bit (Suc dd) k = take_bit (Suc dd) ?img")
      case True
      then show ?thesis unfolding eq using e8 k6 by (simp only: if_True simp_thms)
    next
      case False
      then have a: "bucket_page_ids ?d8 k = bucket_page_ids ?d6 k"
        using e8 k6 by (simp only: if_False simp_thms)
      have ki: "k \<noteq> ?img" using False by metis
      show ?thesis
      proof (cases "take_bit (Suc dd) k = take_bit (Suc dd) s")
        case True
        then have "bucket_page_ids ?d6 k = ?p" using e6 k4 by (simp only: if_True simp_thms)
        moreover have "bucket_page_ids d1 k = ?p"
          using old[OF k] class_split[of dd k s] True by metis
        ultimately show ?thesis unfolding eq using a False by (simp only: if_False simp_thms)
      next
        case nS: False
        then have "bucket_page_ids ?d6 k = bucket_page_ids ?d4 k"
          using e6 k4 by (simp only: if_False simp_thms)
        also have "\<dots> = bucket_page_ids d1 k" using ki by (simp only: d4 fun_upd_apply if_False)
        finally show ?thesis unfolding eq using a False by (simp only: if_False simp_thms)
      qed
    qed
  qed
  show "\<forall>k < 2 ^ global_depth d1. local_depths d8 k =
                 (if take_bit dd k = take_bit dd s then Suc dd else local_depths d1 k)"
  proof (intro allI impI)
    fix k :: nat assume k: "k < 2 ^ global_depth d1"
    have k6: "k < DirSize ?d6" and k4: "k < DirSize ?d4"
      using k g6 d4(1) by (simp_all only: DirSize_def)
    note c = class_split[of dd k s]
    show "local_depths d8 k = (if take_bit dd k = take_bit dd s then Suc dd else local_depths d1 k)"
    proof (cases "take_bit (Suc dd) k = take_bit (Suc dd) ?img")
      case True
      then have "local_depths ?d8 k = Suc dd" using e8 k6 by (simp only: if_True simp_thms)
      moreover have "take_bit dd k = take_bit dd s" using True c by blast
      ultimately show ?thesis unfolding eq by (simp only: if_True simp_thms)
    next
      case False
      then have a: "local_depths ?d8 k = local_depths ?d6 k"
        using e8 k6 by (simp only: if_False simp_thms)
      have ki: "k \<noteq> ?img" using False by metis
      show ?thesis
      proof (cases "take_bit (Suc dd) k = take_bit (Suc dd) s")
        case True
        then have "local_depths ?d6 k = Suc dd" using e6 k4 by (simp only: if_True simp_thms)
        moreover have "take_bit dd k = take_bit dd s" using True c by blast
        ultimately show ?thesis unfolding eq using a by (simp only: if_True simp_thms)
      next
        case nS: False
        then have "local_depths ?d6 k = local_depths ?d4 k"
          using e6 k4 by (simp only: if_False simp_thms)
        moreover have nc: "take_bit dd k \<noteq> take_bit dd s" using False nS c by blast
        moreover have "k \<noteq> s" using nc by metis
        then have "local_depths ?d4 k = local_depths d1 k"
          using ki by (simp only: d4 fun_upd_apply if_False)
        ultimately show ?thesis unfolding eq using a by (simp only: if_False simp_thms)
      qed
    qed
  qed
qed


lemma take_bit_take_bit_le: "l \<le> g \<Longrightarrow> take_bit l (take_bit g (k::nat)) = take_bit l k"
  by (simp add: min_def)

lemma IncrGlobalDepth_effect:
  "global_depth (IncrGlobalDepth d) = Suc (global_depth d)"
  "k < 2 ^ Suc (global_depth d) \<Longrightarrow>
     bucket_page_ids (IncrGlobalDepth d) k = bucket_page_ids d (take_bit (global_depth d) k)"
  "k < 2 ^ Suc (global_depth d) \<Longrightarrow>
     local_depths (IncrGlobalDepth d) k = local_depths d (take_bit (global_depth d) k)"
proof -
  show "global_depth (IncrGlobalDepth d) = Suc (global_depth d)"
    by (simp add: IncrGlobalDepth_def Let_def)
  have tb: "take_bit (global_depth d) k = (if 2 ^ global_depth d \<le> k then k - 2 ^ global_depth d else k)"
    if "k < 2 ^ Suc (global_depth d)" for k :: nat
  proof (cases "2 ^ global_depth d \<le> k")
    case True
    then have "k - 2 ^ global_depth d < 2 ^ global_depth d" using that by simp
    then have "(k - 2 ^ global_depth d) mod 2 ^ global_depth d = k - 2 ^ global_depth d" by simp
    moreover have "k mod 2 ^ global_depth d = (k - 2 ^ global_depth d) mod 2 ^ global_depth d"
      using True by (metis le_mod_geq mod_mod_trivial)
    ultimately show ?thesis using True by (simp add: take_bit_eq_mod)
  next
    case False
    then show ?thesis by (simp add: take_bit_eq_mod)
  qed
  show "k < 2 ^ Suc (global_depth d) \<Longrightarrow>
     bucket_page_ids (IncrGlobalDepth d) k = bucket_page_ids d (take_bit (global_depth d) k)"
    using tb[of k] by (simp add: IncrGlobalDepth_def Let_def)
  show "k < 2 ^ Suc (global_depth d) \<Longrightarrow>
     local_depths (IncrGlobalDepth d) k = local_depths d (take_bit (global_depth d) k)"
    using tb[of k] by (simp add: IncrGlobalDepth_def Let_def)
qed

lemma dir_inv_IncrGlobalDepth:
  assumes "dir_inv d"
  shows "dir_inv (IncrGlobalDepth d)"
proof -
  let ?g = "global_depth d"
  let ?d' = "IncrGlobalDepth d"
  note e = IncrGlobalDepth_effect[where d = d]
  have lt: "take_bit ?g k < 2 ^ ?g" for k :: nat by simp
  show ?thesis
    unfolding dir_inv_def e(1)
  proof (intro allI impI conjI)
    fix i :: nat assume i: "i < 2 ^ Suc ?g"
    have "local_depths d (take_bit ?g i) \<le> ?g"
      using assms lt[of i] unfolding dir_inv_def by blast
    then show "local_depths ?d' i \<le> Suc ?g" using e(3)[OF i] by simp
  next
    fix i j :: nat assume i: "i < 2 ^ Suc ?g" and j: "j < 2 ^ Suc ?g"
    let ?i = "take_bit ?g i" and ?j = "take_bit ?g j"
    let ?l = "local_depths d ?i"
    have l: "?l \<le> ?g" using assms lt[of i] unfolding dir_inv_def by blast
    have "bucket_page_ids d ?i = bucket_page_ids d ?j \<longleftrightarrow> take_bit ?l ?i = take_bit ?l ?j"
      using assms lt[of i] lt[of j] unfolding dir_inv_def by blast
    moreover have "take_bit ?l ?i = take_bit ?l i" "take_bit ?l ?j = take_bit ?l j"
      using l by (simp_all only: take_bit_take_bit_le)
    ultimately show "bucket_page_ids ?d' i = bucket_page_ids ?d' j \<longleftrightarrow>
           take_bit (local_depths ?d' i) i = take_bit (local_depths ?d' i) j"
      unfolding e(2)[OF i] e(2)[OF j] e(3)[OF i] by metis
  qed
qed

lemma SplitInsert_rehash_no_fuel:
  "SplitInsert_rehash entries msk p q s = Inl e \<Longrightarrow> e = AssertionFailed"
proof (induction entries arbitrary: s)
  case Nil
  then show ?case by simp
next
  case (Cons a entries)
  obtain k v where a: "a = (k, v)" by (cases a)
  from Cons show ?case
    unfolding a by (auto simp: Let_def split: if_splits prod.splits bool.splits)
qed

lemma SplitInsert_rehash_frame:
  "SplitInsert_rehash entries msk p q s = Inr s' \<Longrightarrow>
     dir_page s' = dir_page s \<and> next_new_page s' = next_new_page s \<and>
     directory_page_id s' = directory_page_id s \<and> hash_fn s' = hash_fn s \<and>
     bucket_capacity s' = bucket_capacity s"
proof (induction entries arbitrary: s)
  case Nil
  then show ?case by simp
next
  case (Cons a entries)
  obtain k v where a: "a = (k, v)" by (cases a)
  from Cons.prems obtain b' pid where
    "SplitInsert_rehash entries msk p q (s\<lparr>bucket_pages := (bucket_pages s)(pid := b')\<rparr>) = Inr s'"
    unfolding a by (auto simp: Let_def split: if_splits prod.splits bool.splits)
  from Cons.IH[OF this] show ?case by simp
qed



lemma dir_inv_initial:
  "dir_inv (SetBucketPageId 0 b \<lparr>dir_page_id = p, global_depth = 0, local_depths = (\<lambda>_. 0),
                     bucket_page_ids = (\<lambda>_. 0)\<rparr>)"
  by (simp add: dir_inv_def SetBucketPageId_def)

lemma FetchDirectoryPage_inv:
  "ht_pre s \<Longrightarrow> ht_inv (FetchDirectoryPage s)"
  unfolding ht_pre_def
proof (cases "directory_page_id s = None")
  case True
  show "ht_inv (FetchDirectoryPage s)"
    unfolding ht_inv_def using True dir_inv_initial
    by (simp add: FetchDirectoryPage_def NewPage_def SetBucketPageId_def)
next
  case False
  assume "(directory_page_id s = None \<and> dir_inv (dir_page s)) \<or> ht_inv s"
  with False show "ht_inv (FetchDirectoryPage s)"
    by (auto simp: FetchDirectoryPage_def)
qed

lemma FetchDirectoryPage_idem: "ht_inv s \<Longrightarrow> FetchDirectoryPage s = s"
  by (auto simp: FetchDirectoryPage_def ht_inv_def)

lemma KeyToDirectoryIndex_take_bit:
  "KeyToDirectoryIndex s key d = take_bit (global_depth d) (Hash s key)"
  by (simp only: KeyToDirectoryIndex_def GetGlobalDepthMask_def and_mask_take_bit)

lemma ht_inv_bucket_update:
  "ht_inv s \<Longrightarrow> ht_inv (s\<lparr>bucket_pages := bp\<rparr>)"
  by (simp add: ht_inv_def)

lemma SplitInsert_split_inv:
  assumes inv: "ht_inv s0" and r: "SplitInsert_split key s0 = Inr (b, s')"
  shows "ht_inv s' \<and>
         (b \<longrightarrow> local_depths (dir_page s') (KeyToDirectoryIndex s' key (dir_page s')) =
                Suc (local_depths (dir_page s0) (KeyToDirectoryIndex s0 key (dir_page s0))))"
proof -
  have f: "FetchDirectoryPage s0 = s0" by (rule FetchDirectoryPage_idem[OF inv])
  let ?d0 = "dir_page s0"
  let ?g0 = "global_depth ?d0"
  let ?h = "Hash s0 key"
  let ?idx = "take_bit ?g0 ?h"
  let ?dd = "local_depths ?d0 ?idx"
  have dinv0: "dir_inv ?d0" and fresh0: "\<forall>i < 2 ^ ?g0. bucket_page_ids ?d0 i < next_new_page s0"
    using inv by (simp_all add: ht_inv_def)
  have idx: "?idx < 2 ^ ?g0" by simp
  have ddle: "?dd \<le> ?g0" using dinv0 idx unfolding dir_inv_def by blast
  show ?thesis
  proof (cases "?dd \<ge> MAX_BUCKET_DEPTH")
    case True
    then have "SplitInsert_split key s0 = Inr (False, s0)"
      by (simp add: SplitInsert_split_def f Let_def KeyToDirectoryIndex_take_bit)
    with r inv show ?thesis by simp
  next
    case False
    let ?d1 = "if ?dd = ?g0 then IncrGlobalDepth ?d0 else ?d0"
    let ?g1 = "global_depth ?d1"
    let ?q = "next_new_page s0"
    have dinv1: "dir_inv ?d1" using dinv0 by (simp add: dir_inv_IncrGlobalDepth)
    have g1: "?g1 = (if ?dd = ?g0 then Suc ?g0 else ?g0)"
      by (simp add: IncrGlobalDepth_effect(1))
    have "(2::nat) ^ ?g0 \<le> 2 ^ ?g1" using g1 by simp
    with idx have idx1: "?idx < 2 ^ ?g1" by (rule less_le_trans)
    have tbi: "take_bit ?g0 ?idx = ?idx" by simp
    have via0: "bucket_page_ids ?d1 k = bucket_page_ids ?d0 (take_bit ?g0 k) \<and>
                local_depths ?d1 k = local_depths ?d0 (take_bit ?g0 k)" if "k < 2 ^ ?g1" for k
    proof (cases "?dd = ?g0")
      case True
      then show ?thesis using that IncrGlobalDepth_effect(2,3)[of k ?d0] g1 by simp
    next
      case False
      then have "k < 2 ^ ?g0" using that g1 by simp
      then have "take_bit ?g0 k = k" by (simp add: take_bit_nat_eq_self_iff)
      then show ?thesis using False by simp
    qed
    have ld1: "local_depths ?d1 ?idx = ?dd" using via0[OF idx1] tbi by simp
    have ddlt: "?dd < ?g1" using ddle g1 by auto
    have fresh1: "\<forall>k < 2 ^ ?g1. bucket_page_ids ?d1 k \<noteq> ?q"
    proof (intro allI impI)
      fix k :: nat assume k: "k < 2 ^ ?g1"
      have "bucket_page_ids ?d0 (take_bit ?g0 k) < ?q" using fresh0 by simp
      then show "bucket_page_ids ?d1 k \<noteq> ?q" using via0[OF k] by simp
    qed
    have tb1: "take_bit ?g1 ?h < 2 ^ ?g1" by simp
    have "take_bit ?g0 (take_bit ?g1 ?h) = ?idx"
      using g1 by (simp add: min_def)
    then have sp: "bucket_page_ids ?d1 (take_bit ?g1 ?h) = bucket_page_ids ?d1 ?idx"
      using via0[OF tb1] via0[OF idx1] tbi by simp
    let ?p = "bucket_page_ids ?d1 ?idx"
    let ?d8 = "SplitInsert_directory ?idx ?p ?q ?d1"
    note eff = SplitInsert_directory_effect[OF dinv1 idx1 ld1 ddlt refl, of ?q]
    have dinv8: "dir_inv ?d8"
      by (rule dir_inv_split[OF dinv1 idx1 ld1 ddlt fresh1 eff])
    let ?s2 = "s0\<lparr>bucket_pages := (bucket_pages s0)(?p := []), next_new_page := ?q + 1,
                  bucket_pages := ((bucket_pages s0)(?p := []))(?q := [])\<rparr>"
    from r False obtain s3 where
      re: "SplitInsert_rehash (bucket_pages s0 ?p) (GetLocalDepthMask ?idx ?d8) ?p ?q
             (?s2\<lparr>dir_page := ?d8\<rparr>) = Inr s3" and s': "s' = s3"
      unfolding SplitInsert_split_def f Let_def KeyToDirectoryIndex_take_bit KeyToPageId_def NewPage_def
      by (simp add: sp split: sum.splits if_splits)
    from SplitInsert_rehash_frame[OF re]
    have fr: "dir_page s3 = ?d8" "next_new_page s3 = ?q + 1" "directory_page_id s3 = directory_page_id s0"
      "hash_fn s3 = hash_fn s0"
      by simp_all
    have "\<forall>i < 2 ^ global_depth ?d8. bucket_page_ids ?d8 i < ?q + 1"
    proof (intro allI impI)
      fix i :: nat assume "i < 2 ^ global_depth ?d8"
      then have i: "i < 2 ^ ?g1" using eff(1) by simp
      have "bucket_page_ids ?d0 (take_bit ?g0 i) < ?q" using fresh0 by simp
      then have "bucket_page_ids ?d1 i < ?q" using via0[OF i] by simp
      then show "bucket_page_ids ?d8 i < ?q + 1"
        using eff(2)[rule_format, OF i] by (simp split: if_splits)
    qed
    then have i3: "ht_inv s3"
      unfolding ht_inv_def fr using dinv8 inv by (simp add: ht_inv_def)
    have h3: "Hash s3 key = ?h" by (simp add: Hash_def fr)
    have "take_bit ?dd (take_bit ?g1 ?h) = take_bit ?dd ?h"
      using ddlt by (simp only: take_bit_take_bit_le less_imp_le)
    moreover have "take_bit ?dd ?idx = take_bit ?dd ?h"
      using ddle by (simp only: take_bit_take_bit_le)
    ultimately have "take_bit ?dd (take_bit ?g1 ?h) = take_bit ?dd ?idx" by simp
    then have "local_depths ?d8 (take_bit ?g1 ?h) = Suc ?dd"
      using eff(3)[rule_format, OF tb1] by (simp only: if_True simp_thms)
    then have "local_depths (dir_page s3) (KeyToDirectoryIndex s3 key (dir_page s3)) =
                Suc (local_depths ?d0 (KeyToDirectoryIndex s0 key ?d0))"
      unfolding KeyToDirectoryIndex_take_bit fr h3 eff(1) .
    with i3 show ?thesis unfolding s' by simp
  qed
qed

lemma Insert_fuel_inv:
  "ht_pre s0 \<Longrightarrow> Insert_fuel n key value s0 = Inr (b, s') \<Longrightarrow> ht_inv s'"
proof (induction n arbitrary: s0)
  case 0
  then show ?case by simp
next
  case (Suc n)
  let ?s = "FetchDirectoryPage s0"
  have inv: "ht_inv ?s" by (rule FetchDirectoryPage_inv[OF Suc.prems(1)])
  show ?case
  proof (cases "Bucket_IsFull (bucket_capacity ?s) (bucket_pages ?s (KeyToPageId ?s key (dir_page ?s)))")
    case False
    with Suc.prems(2) obtain bp where "s' = ?s\<lparr>bucket_pages := bp\<rparr>"
      by (auto simp: Let_def split: prod.splits)
    then show ?thesis using inv by (simp add: ht_inv_bucket_update)
  next
    case True
    show ?thesis
    proof (cases "SplitInsert_split key ?s")
      case (Inl e)
      with Suc.prems(2) True show ?thesis by (simp add: Let_def)
    next
      case (Inr res)
      obtain c s1 where res: "res = (c, s1)" by (cases res)
      have i1: "ht_inv s1" using SplitInsert_split_inv[OF inv] Inr res by simp
      show ?thesis
      proof (cases c)
        case False
        with Suc.prems(2) True Inr res have "s' = s1" by (simp add: Let_def)
        with i1 show ?thesis by simp
      next
        case c: True
        with Suc.prems(2) True Inr res have "Insert_fuel n key value s1 = Inr (b, s')"
          by (simp add: Let_def)
        moreover have "ht_pre s1" using i1 by (simp add: ht_pre_def)
        ultimately show ?thesis by (rule Suc.IH[rotated])
      qed
    qed
  qed
qed




lemma Insert_fuel_enough:
  "ht_inv s \<Longrightarrow> 0 < n \<Longrightarrow>
     MAX_BUCKET_DEPTH < n + local_depths (dir_page s) (KeyToDirectoryIndex s key (dir_page s)) \<Longrightarrow>
     Insert_fuel n key value s \<noteq> Inl OutOfFuel"
proof (induction n arbitrary: s)
  case 0
  then show ?case by simp
next
  case (Suc n)
  have f: "FetchDirectoryPage s = s" by (rule FetchDirectoryPage_idem[OF Suc.prems(1)])
  let ?L = "local_depths (dir_page s) (KeyToDirectoryIndex s key (dir_page s))"
  show ?case
  proof (cases "Bucket_IsFull (bucket_capacity s) (bucket_pages s (KeyToPageId s key (dir_page s)))")
    case False
    then show ?thesis by (simp add: f Let_def split: prod.splits)
  next
    case True
    show ?thesis
    proof (cases "SplitInsert_split key s")
      case (Inl e)
      have "e \<noteq> OutOfFuel"
        using Inl unfolding SplitInsert_split_def Let_def
        by (auto split: if_splits prod.splits sum.splits dest: SplitInsert_rehash_no_fuel)
      with Inl True show ?thesis by (simp add: f Let_def)
    next
      case (Inr res)
      obtain c s1 where res: "res = (c, s1)" by (cases res)
      note si = SplitInsert_split_inv[OF Suc.prems(1) Inr[unfolded res]]
      show ?thesis
      proof (cases c)
        case False
        with True Inr res show ?thesis by (simp add: f Let_def)
      next
        case c: True
        have nL: "?L < MAX_BUCKET_DEPTH"
        proof (rule ccontr)
          assume "\<not> ?L < MAX_BUCKET_DEPTH"
          then have "SplitInsert_split key s = Inr (False, s)"
            by (simp add: SplitInsert_split_def f Let_def)
          with Inr res c show False by simp
        qed
        have l1: "local_depths (dir_page s1) (KeyToDirectoryIndex s1 key (dir_page s1)) = Suc ?L"
          using si c by simp
        have "0 < n" using Suc.prems(3) nL by simp
        moreover have "MAX_BUCKET_DEPTH < n + local_depths (dir_page s1) (KeyToDirectoryIndex s1 key (dir_page s1))"
          using Suc.prems(3) l1 by simp
        ultimately have "Insert_fuel n key value s1 \<noteq> Inl OutOfFuel"
          using si by (intro Suc.IH) simp_all
        with True Inr res c show ?thesis by (simp add: f Let_def)
      qed
    qed
  qed
qed

subsection \<open>Merge\<close>

lemma Merge_relink_step_eq:
  "Merge_relink_step t tp ip i dd =
     (if bucket_page_ids dd i = tp \<or> bucket_page_ids dd i = ip
      then dd\<lparr>bucket_page_ids := (bucket_page_ids dd)(i := ip),
               local_depths := (local_depths dd)(i := local_depths dd t)\<rparr>
      else dd)"
  by (simp add: Merge_relink_step_def Let_def SetBucketPageId_def SetLocalDepth_def)

lemma Merge_relink_fold:
  assumes L: "local_depths d t = L"
  shows "global_depth (fold (Merge_relink_step t tp ip) [0..<n] d) = global_depth d \<and>
         local_depths (fold (Merge_relink_step t tp ip) [0..<n] d) t = L \<and>
         (\<forall>k. bucket_page_ids (fold (Merge_relink_step t tp ip) [0..<n] d) k =
               (if k < n \<and> (bucket_page_ids d k = tp \<or> bucket_page_ids d k = ip) then ip
                else bucket_page_ids d k)) \<and>
         (\<forall>k. local_depths (fold (Merge_relink_step t tp ip) [0..<n] d) k =
               (if k < n \<and> (bucket_page_ids d k = tp \<or> bucket_page_ids d k = ip) then L
                else local_depths d k))"
proof (induction n)
  case 0
  then show ?case using L by simp
next
  case (Suc n)
  define dn where "dn = fold (Merge_relink_step t tp ip) [0..<n] d"
  define dn' where "dn' = Merge_relink_step t tp ip n dn"
  from Suc have gn: "global_depth dn = global_depth d" and ln: "local_depths dn t = L"
    and pk: "\<And>k. bucket_page_ids dn k =
               (if k < n \<and> (bucket_page_ids d k = tp \<or> bucket_page_ids d k = ip) then ip
                else bucket_page_ids d k)"
    and lk: "\<And>k. local_depths dn k =
               (if k < n \<and> (bucket_page_ids d k = tp \<or> bucket_page_ids d k = ip) then L
                else local_depths d k)"
    unfolding dn_def by blast+
  have st: "fold (Merge_relink_step t tp ip) [0..<Suc n] d = dn'"
    by (simp add: dn_def dn'_def)
  have pn: "bucket_page_ids dn n = bucket_page_ids d n" by (simp add: pk)
  let ?c = "bucket_page_ids d n = tp \<or> bucket_page_ids d n = ip"
  have e: "global_depth dn' = global_depth dn"
    "bucket_page_ids dn' = (if ?c then (bucket_page_ids dn)(n := ip) else bucket_page_ids dn)"
    "local_depths dn' = (if ?c then (local_depths dn)(n := L) else local_depths dn)"
    unfolding dn'_def Merge_relink_step_eq pn ln by simp_all
  have "global_depth dn' = global_depth d" using e(1) gn by simp
  moreover have "local_depths dn' t = L" using e(3) ln by simp
  moreover have "bucket_page_ids dn' k =
               (if k < Suc n \<and> (bucket_page_ids d k = tp \<or> bucket_page_ids d k = ip) then ip
                else bucket_page_ids d k)" for k
    unfolding e(2) using pk[of k] by (cases "k = n") (auto simp: less_Suc_eq)
  moreover have "local_depths dn' k =
               (if k < Suc n \<and> (bucket_page_ids d k = tp \<or> bucket_page_ids d k = ip) then L
                else local_depths d k)" for k
    unfolding e(3) using lk[of k] by (cases "k = n") (auto simp: less_Suc_eq)
  ultimately show ?case unfolding st by blast
qed

lemma Merge_relink_effect:
  assumes "local_depths d t = L"
  shows "global_depth (Merge_relink t tp ip d) = global_depth d"
    and "bucket_page_ids (Merge_relink t tp ip d) k =
               (if k < 2 ^ global_depth d \<and> (bucket_page_ids d k = tp \<or> bucket_page_ids d k = ip) then ip
                else bucket_page_ids d k)"
    and "local_depths (Merge_relink t tp ip d) k =
               (if k < 2 ^ global_depth d \<and> (bucket_page_ids d k = tp \<or> bucket_page_ids d k = ip) then L
                else local_depths d k)"
  using Merge_relink_fold[OF assms, of tp ip "DirSize d"]
  unfolding Merge_relink_def by (simp_all add: DirSize_def)

lemma dir_inv_merge:
  assumes inv: "dir_inv d"
    and t: "t < 2 ^ global_depth d"
    and L: "local_depths d t = Suc l" "local_depths d (t XOR 2 ^ l) = Suc l"
    and g: "global_depth d4 = global_depth d"
    and pids: "\<forall>k < 2 ^ global_depth d. bucket_page_ids d4 k =
                 (if take_bit l k = take_bit l t then bucket_page_ids d (t XOR 2 ^ l)
                  else bucket_page_ids d k)"
    and lds: "\<forall>k < 2 ^ global_depth d. local_depths d4 k =
                 (if take_bit l k = take_bit l t then l else local_depths d k)"
  shows "dir_inv d4"
proof -
  let ?g = "global_depth d"
  let ?img = "t XOR 2 ^ l"
  let ?tp = "bucket_page_ids d t"
  let ?ip = "bucket_page_ids d ?img"
  have lg: "Suc l \<le> ?g" using inv t L(1) unfolding dir_inv_def by metis
  have img: "?img < 2 ^ ?g" by (rule image_in_range[OF t]) (use lg in simp)
  have oldt: "bucket_page_ids d k = ?tp \<longleftrightarrow> take_bit (Suc l) t = take_bit (Suc l) k"
    if "k < 2 ^ ?g" for k
    using inv t L(1) that unfolding dir_inv_def by (metis (no_types, lifting))
  have oldi: "bucket_page_ids d k = ?ip \<longleftrightarrow> take_bit (Suc l) ?img = take_bit (Suc l) k"
    if "k < 2 ^ ?g" for k
    using inv img L(2) that unfolding dir_inv_def by (metis (no_types, lifting))
  have cls: "take_bit l k = take_bit l t \<longleftrightarrow> (bucket_page_ids d k = ?tp \<or> bucket_page_ids d k = ?ip)"
    if "k < 2 ^ ?g" for k
    using oldt[OF that] oldi[OF that] class_split[of l k t] by metis
  have ldle: "local_depths d k \<le> ?g" if "k < 2 ^ ?g" for k
    using inv that unfolding dir_inv_def by blast
  have oldij: "bucket_page_ids d i = bucket_page_ids d j \<longleftrightarrow>
              take_bit (local_depths d i) i = take_bit (local_depths d i) j"
    if "i < 2 ^ ?g" "j < 2 ^ ?g" for i j
    using inv that unfolding dir_inv_def by blast
  show ?thesis
    unfolding dir_inv_def g
  proof (intro allI impI conjI)
    fix i :: nat assume i: "i < 2 ^ ?g"
    show "local_depths d4 i \<le> ?g"
      using lds[rule_format, OF i] ldle[OF i] lg by (simp split: if_splits)
  next
    fix i j :: nat assume i: "i < 2 ^ ?g" and j: "j < 2 ^ ?g"
    show "bucket_page_ids d4 i = bucket_page_ids d4 j \<longleftrightarrow>
               take_bit (local_depths d4 i) i = take_bit (local_depths d4 i) j"
    proof (cases "take_bit l i = take_bit l t")
      case True
      then have l4: "local_depths d4 i = l" using lds[rule_format, OF i] by (simp only: if_True simp_thms)
      have pi: "bucket_page_ids d4 i = ?ip" using pids[rule_format, OF i] True by (simp only: if_True simp_thms)
      have "bucket_page_ids d4 j = ?ip \<longleftrightarrow> take_bit l j = take_bit l t"
      proof (cases "take_bit l j = take_bit l t")
        case True
        then show ?thesis using pids[rule_format, OF j] by (simp only: if_True simp_thms)
      next
        case False
        then have "bucket_page_ids d4 j = bucket_page_ids d j"
          using pids[rule_format, OF j] by (simp only: if_False simp_thms)
        then show ?thesis using False cls[OF j] by metis
      qed
      then show ?thesis unfolding l4 pi using True by metis
    next
      case False
      then have l4: "local_depths d4 i = local_depths d i"
        using lds[rule_format, OF i] by (simp only: if_False simp_thms)
      have pi: "bucket_page_ids d4 i = bucket_page_ids d i"
        using pids[rule_format, OF i] False by (simp only: if_False simp_thms)
      have ni: "bucket_page_ids d i \<noteq> ?tp" "bucket_page_ids d i \<noteq> ?ip"
        using cls[OF i] False by metis+
      have "bucket_page_ids d4 j = bucket_page_ids d i \<longleftrightarrow> bucket_page_ids d j = bucket_page_ids d i"
      proof (cases "take_bit l j = take_bit l t")
        case True
        then have "bucket_page_ids d4 j = ?ip" using pids[rule_format, OF j] by (simp only: if_True simp_thms)
        moreover have "bucket_page_ids d j = ?tp \<or> bucket_page_ids d j = ?ip" using cls[OF j] True by metis
        ultimately show ?thesis using ni by metis
      next
        case False
        then show ?thesis using pids[rule_format, OF j] by (simp only: if_False simp_thms)
      qed
      then show ?thesis unfolding l4 pi using oldij[OF i j] by metis
    qed
  qed
qed

lemma Merge_shrink_inv:
  "dir_inv d \<Longrightarrow> (\<forall>i < 2 ^ global_depth d. bucket_page_ids d i < n) \<Longrightarrow>
     dir_inv (Merge_shrink d) \<and> (\<forall>i < 2 ^ global_depth (Merge_shrink d). bucket_page_ids (Merge_shrink d) i < n)"
proof (induction d rule: Merge_shrink.induct)
  case (1 d)
  show ?case
  proof (cases "CanShrink d")
    case False
    then have "Merge_shrink d = d" by (subst Merge_shrink.simps) simp
    with 1 show ?thesis by simp
  next
    case True
    let ?d' = "DecrGlobalDepth d"
    have all: "\<forall>i < 2 ^ global_depth d. local_depths d i < global_depth d"
      using True by (simp add: CanShrink_def DirSize_def list_all_iff)
    have "(0::nat) < 2 ^ global_depth d" by simp
    with all have "local_depths d 0 < global_depth d" by blast
    then have g: "0 < global_depth d" by simp
    have sub: "i < 2 ^ global_depth d" if "i < 2 ^ global_depth ?d'" for i :: nat
    proof -
      have "(2::nat) ^ (global_depth d - 1) \<le> 2 ^ global_depth d" by simp
      moreover have "i < 2 ^ (global_depth d - 1)" using that by (simp add: DecrGlobalDepth_def)
      ultimately show ?thesis by (rule less_le_trans[rotated])
    qed
    have f: "bucket_page_ids ?d' = bucket_page_ids d" "local_depths ?d' = local_depths d"
      "global_depth ?d' = global_depth d - 1"
      by (simp_all add: DecrGlobalDepth_def)
    have "dir_inv ?d'"
      unfolding dir_inv_def
    proof (intro allI impI conjI)
      fix i :: nat assume i: "i < 2 ^ global_depth ?d'"
      have "local_depths d i < global_depth d" using all sub[OF i] by blast
      then show "local_depths ?d' i \<le> global_depth ?d'"
        unfolding f by simp
    next
      fix i j :: nat assume i: "i < 2 ^ global_depth ?d'" and j: "j < 2 ^ global_depth ?d'"
      show "bucket_page_ids ?d' i = bucket_page_ids ?d' j \<longleftrightarrow>
            take_bit (local_depths ?d' i) i = take_bit (local_depths ?d' i) j"
        unfolding f using "1.prems"(1) sub[OF i] sub[OF j] unfolding dir_inv_def by blast
    qed
    moreover have "\<forall>i < 2 ^ global_depth ?d'. bucket_page_ids ?d' i < n"
      using "1.prems"(2) sub unfolding f(1) by blast
    ultimately have "dir_inv (Merge_shrink ?d') \<and>
        (\<forall>i < 2 ^ global_depth (Merge_shrink ?d'). bucket_page_ids (Merge_shrink ?d') i < n)"
      by (rule "1.IH"[OF True])
    moreover have "Merge_shrink d = Merge_shrink ?d'" using True by (subst Merge_shrink.simps) simp
    ultimately show ?thesis by simp
  qed
qed

lemma merge_class:
  assumes inv: "dir_inv d"
    and t: "t < 2 ^ global_depth d"
    and L: "local_depths d t = Suc l" "local_depths d (t XOR 2 ^ l) = Suc l"
    and k: "k < 2 ^ global_depth d"
  shows "take_bit l k = take_bit l t \<longleftrightarrow>
         (bucket_page_ids d k = bucket_page_ids d t \<or> bucket_page_ids d k = bucket_page_ids d (t XOR 2 ^ l))"
proof -
  let ?g = "global_depth d"
  let ?img = "t XOR 2 ^ l"
  have lg: "Suc l \<le> ?g" using inv t L(1) unfolding dir_inv_def by metis
  have img: "?img < 2 ^ ?g" by (rule image_in_range[OF t]) (use lg in simp)
  have oldt: "bucket_page_ids d k = bucket_page_ids d t \<longleftrightarrow> take_bit (Suc l) t = take_bit (Suc l) k"
    using inv t L(1) k unfolding dir_inv_def by (metis (no_types, lifting))
  have oldi: "bucket_page_ids d k = bucket_page_ids d ?img \<longleftrightarrow> take_bit (Suc l) ?img = take_bit (Suc l) k"
    using inv img L(2) k unfolding dir_inv_def by (metis (no_types, lifting))
  show ?thesis using oldt oldi class_split[of l k t] by metis
qed

lemma Merge_inv:
  assumes inv: "ht_inv s0" and r: "Merge t s0 = Inr s'"
  shows "ht_inv s'"
proof -
  have f: "FetchDirectoryPage s0 = s0" by (rule FetchDirectoryPage_idem[OF inv])
  let ?d = "dir_page s0"
  let ?g = "global_depth ?d"
  have dinv: "dir_inv ?d" and fresh: "\<forall>i < 2 ^ ?g. bucket_page_ids ?d i < next_new_page s0"
    using inv by (simp_all add: ht_inv_def)
  let ?L = "local_depths ?d t"
  let ?gi = "GetSplitImageIndex t ?d"
  let ?tp = "bucket_page_ids ?d t"
  show ?thesis
  proof (cases "t \<ge> DirSize ?d \<or> ?L = 0 \<or> ?L \<noteq> local_depths ?d ?gi
                 \<or> \<not> Bucket_IsEmpty (bucket_pages s0 ?tp)")
    case True
    then have "Merge t s0 = Inr s0"
      unfolding Merge_def f Let_def by auto
    with r inv show ?thesis by simp
  next
    case False
    then have t: "t < 2 ^ ?g" by (simp add: DirSize_def)
    from False obtain l where l: "?L = Suc l" by (cases ?L) auto
    let ?img = "t XOR 2 ^ l"
    let ?ip = "bucket_page_ids ?d ?img"
    have imgeq: "?gi = ?img" by (simp add: GetSplitImageIndex_def l)
    have Limg: "local_depths ?d (t XOR 2 ^ l) = Suc l" using False l imgeq by simp
    have ne: "t \<noteq> t XOR 2 ^ l"
      using class_image_differs[of l t] by metis
    let ?d3 = "DecrLocalDepth ?img (DecrLocalDepth t (SetBucketPageId t ?ip ?d))"
    have d3: "global_depth ?d3 = ?g"
      "bucket_page_ids ?d3 = (bucket_page_ids ?d)(t := ?ip)"
      "local_depths ?d3 = (local_depths ?d)(t := l, t XOR 2 ^ l := l)"
      using l Limg ne
      by (simp_all add: DecrLocalDepth_def SetLocalDepth_def SetBucketPageId_def)
    have l3: "local_depths ?d3 t = l" using ne by (simp add: d3)
    have l3i: "local_depths ?d3 ?img = l" by (simp add: d3)
    let ?d4 = "Merge_relink t ?tp ?ip ?d3"
    note rl = Merge_relink_effect[OF l3, of ?tp ?ip]
    have s': "s' = (DeletePage ?tp s0)\<lparr>dir_page := Merge_shrink ?d4\<rparr>"
      using r False l3 l3i unfolding Merge_def f Let_def imgeq by simp
    have g4: "global_depth ?d4 = ?g" using rl(1) d3(1) by simp
    have tbi: "take_bit l (t XOR 2 ^ l) = take_bit l t"
      unfolding take_bit_eq_iff_bits by (simp add: bit_flip)
    have p4: "\<forall>k < 2 ^ ?g. bucket_page_ids ?d4 k =
                 (if take_bit l k = take_bit l t then bucket_page_ids ?d (t XOR 2 ^ l)
                  else bucket_page_ids ?d k)"
      and l4: "\<forall>k < 2 ^ ?g. local_depths ?d4 k =
                 (if take_bit l k = take_bit l t then l else local_depths ?d k)"
    proof -
      have both: "bucket_page_ids ?d4 k =
                 (if take_bit l k = take_bit l t then bucket_page_ids ?d (t XOR 2 ^ l)
                  else bucket_page_ids ?d k) \<and>
            local_depths ?d4 k =
                 (if take_bit l k = take_bit l t then l else local_depths ?d k)"
        if k: "k < 2 ^ ?g" for k
      proof (cases "take_bit l k = take_bit l t")
        case True
        then have "bucket_page_ids ?d k = ?tp \<or> bucket_page_ids ?d k = ?ip"
          using merge_class[OF dinv t l Limg k] by simp
        then have "bucket_page_ids ?d3 k = ?tp \<or> bucket_page_ids ?d3 k = ?ip"
          by (auto simp: d3)
        then show ?thesis using rl(2)[of k] rl(3)[of k] k d3(1) True by simp
      next
        case False
        then have n: "bucket_page_ids ?d k \<noteq> ?tp" "bucket_page_ids ?d k \<noteq> ?ip"
          using merge_class[OF dinv t l Limg k] by simp_all
        have kt: "k \<noteq> t" using False by metis
        have ki: "k \<noteq> t XOR 2 ^ l" using False tbi by metis
        have "bucket_page_ids ?d3 k = bucket_page_ids ?d k" "local_depths ?d3 k = local_depths ?d k"
          using kt ki by (simp_all add: d3)
        then show ?thesis using rl(2)[of k] rl(3)[of k] n False by simp
      qed
      show "\<forall>k < 2 ^ ?g. bucket_page_ids ?d4 k =
                 (if take_bit l k = take_bit l t then bucket_page_ids ?d (t XOR 2 ^ l)
                  else bucket_page_ids ?d k)" using both by blast
      show "\<forall>k < 2 ^ ?g. local_depths ?d4 k =
                 (if take_bit l k = take_bit l t then l else local_depths ?d k)" using both by blast
    qed
    have dinv4: "dir_inv ?d4" by (rule dir_inv_merge[OF dinv t l Limg g4 p4 l4])
    have img: "t XOR 2 ^ l < 2 ^ ?g"
    proof (rule image_in_range[OF t])
      have "Suc l \<le> ?g" using dinv t l unfolding dir_inv_def by metis
      then show "l < ?g" by simp
    qed
    have fresh4: "\<forall>i < 2 ^ global_depth ?d4. bucket_page_ids ?d4 i < next_new_page s0"
    proof (intro allI impI)
      fix i :: nat assume "i < 2 ^ global_depth ?d4"
      then have i: "i < 2 ^ ?g" using g4 by simp
      show "bucket_page_ids ?d4 i < next_new_page s0"
        using p4[rule_format, OF i] fresh[rule_format, OF i] fresh[rule_format, OF img]
        by (simp split: if_splits)
    qed
    from Merge_shrink_inv[OF dinv4 fresh4] inv show ?thesis
      unfolding s' ht_inv_def by (simp add: DeletePage_def)
  qed
qed

lemma HT_Remove_inv:
  assumes "ht_pre s0" "HT_Remove key value s0 = Inr (b, s')"
  shows "ht_inv s'"
proof -
  let ?s = "FetchDirectoryPage s0"
  have inv: "ht_inv ?s" by (rule FetchDirectoryPage_inv[OF assms(1)])
  obtain res b' where br: "Bucket_Remove key value (bucket_pages ?s (KeyToPageId ?s key (dir_page ?s))) = (res, b')"
    by (cases "Bucket_Remove key value (bucket_pages ?s (KeyToPageId ?s key (dir_page ?s)))")
  let ?s1 = "?s\<lparr>bucket_pages := (bucket_pages ?s)(KeyToPageId ?s key (dir_page ?s) := b')\<rparr>"
  have inv1: "ht_inv ?s1" using inv by (rule ht_inv_bucket_update)
  show ?thesis
  proof (cases "Bucket_IsEmpty b'")
    case False
    with assms(2) br have "s' = ?s1" by (simp add: HT_Remove_def Let_def)
    with inv1 show ?thesis by simp
  next
    case True
    with assms(2) br have "Merge (KeyToDirectoryIndex ?s key (dir_page ?s)) ?s1 = Inr s'"
      by (simp add: HT_Remove_def Let_def split: sum.splits)
    with inv1 show ?thesis by (rule Merge_inv)
  qed
qed

lemma ht_run_inv:
  "ht_pre s0 \<Longrightarrow> ht_run ops s0 = Inr s' \<Longrightarrow> ht_pre s'"
proof (induction ops arbitrary: s0)
  case Nil
  then show ?case by simp
next
  case (Cons opn ops)
  from Cons.prems(2) obtain b s1 where a: "ht_apply opn s0 = Inr (b, s1)" and r: "ht_run ops s1 = Inr s'"
    by (auto split: sum.splits)
  have "ht_inv s1"
  proof (cases opn)
    case (OpInsert k v)
    with a have "Insert_fuel (MAX_BUCKET_DEPTH + 2) k v s0 = Inr (b, s1)"
      by (simp only: ht_apply.simps HT_Insert_def)
    then show ?thesis by (rule Insert_fuel_inv[OF Cons.prems(1)])
  next
    case (OpRemove k v)
    with a show ?thesis using HT_Remove_inv[OF Cons.prems(1)] by simp
  qed
  then have "ht_pre s1" by (simp add: ht_pre_def)
  from Cons.IH[OF this r] show ?case .
qed

subsection \<open>Insert needs at most \<open>MAX_BUCKET_DEPTH + 1\<close> rounds\<close>

lemma Insert_fuel_Fetch:
  "Insert_fuel n key value (FetchDirectoryPage s) = Insert_fuel n key value s"
proof (cases n)
  case 0 then show ?thesis by simp
next
  case (Suc m)
  have "FetchDirectoryPage (FetchDirectoryPage s) = FetchDirectoryPage s"
    by (auto simp: FetchDirectoryPage_def NewPage_def Let_def split: prod.splits)
  then show ?thesis unfolding Suc by (simp add: Let_def)
qed

lemma HT_Insert_enough_fuel:
  assumes "ht_pre s"
  shows "HT_Insert key value s \<noteq> Inl OutOfFuel"
proof -
  have inv: "ht_inv (FetchDirectoryPage s)" by (rule FetchDirectoryPage_inv[OF assms])
  have "Insert_fuel (MAX_BUCKET_DEPTH + 2) key value (FetchDirectoryPage s) \<noteq> Inl OutOfFuel"
    by (rule Insert_fuel_enough[OF inv]) simp_all
  then show ?thesis unfolding HT_Insert_def Insert_fuel_Fetch .
qed

lemma ht_pre_new: "ht_pre (ExtendibleHashTable_new h cap)"
  by (simp add: ht_pre_def ExtendibleHashTable_new_def dir_inv_def)

subsection \<open>The directory invariant is preserved\<close>

text \<open>
  Claim C7. Starting from a fresh table, or from any table whose directory satisfies the
  invariant and whose bucket page ids were all handed out by the buffer pool, every sequence of
  \<^verbatim>\<open>Insert\<close> and \<^verbatim>\<open>Remove\<close> calls that runs without a failed assertion ends in a
  state whose directory satisfies the invariant: every local depth is at most the global depth,
  and two slots below \<open>2 ^ global_depth\<close> hold the same bucket page id exactly when their
  indices agree on the low \<open>local_depth\<close> bits. This covers the calls that go through
  \<^verbatim>\<open>SplitInsert\<close> (with and without doubling the directory) and through \<^verbatim>\<open>Merge\<close>
  (with and without shrinking it), whatever they return. Moreover the recursion between
  \<^verbatim>\<open>Insert\<close> and \<^verbatim>\<open>SplitInsert\<close> always ends: a further \<^verbatim>\<open>Insert\<close> never needs
  more than \<open>MAX_BUCKET_DEPTH + 1\<close> rounds.
\<close>

theorem directory_invariant_preserved:
  assumes "ht_pre s0" and "ht_run ops s0 = Inr s"
  shows "dir_inv (dir_page s) \<and> HT_Insert key value s \<noteq> Inl OutOfFuel"
proof -
  from ht_run_inv[OF assms] have p: "ht_pre s" .
  then have "dir_inv (dir_page s)" by (auto simp: ht_pre_def ht_inv_def)
  with HT_Insert_enough_fuel[OF p] show ?thesis by simp
qed

text \<open>The theorem at the run \<open>ht_scenario\<close> from a fresh table: the run ends with global
  depth 1, slot 0 on page 1 and slot 1 on page 2, both of local depth 1.\<close>

theorem directory_invariant_preserved_witness:
  "ht_pre (ExtendibleHashTable_new (\<lambda>k. k) 2 :: (nat, nat) ExtendibleHashTable) \<and>
   (\<exists>s. ht_run ht_scenario (ExtendibleHashTable_new (\<lambda>k. k) 2) = Inr s \<and>
        global_depth (dir_page s) = 1 \<and>
        map (bucket_page_ids (dir_page s)) [0, 1] = [1, 2] \<and>
        map (local_depths (dir_page s)) [0, 1] = [1, 1] \<and>
        dir_inv (dir_page s) \<and> HT_Insert 6 6 s \<noteq> Inl OutOfFuel)"
proof -
  have "case ht_run ht_scenario (ExtendibleHashTable_new (\<lambda>k. k) 2) of
          Inl _ \<Rightarrow> False
        | Inr s \<Rightarrow> global_depth (dir_page s) = 1 \<and>
                   map (bucket_page_ids (dir_page s)) [0, 1] = [1, 2] \<and>
                   map (local_depths (dir_page s)) [0, 1] = [1, 1]"
    by code_simp
  then obtain s where r: "ht_run ht_scenario (ExtendibleHashTable_new (\<lambda>k. k) 2) = Inr s"
    and v: "global_depth (dir_page s) = 1"
           "map (bucket_page_ids (dir_page s)) [0, 1] = [1, 2]"
           "map (local_depths (dir_page s)) [0, 1] = [1, 1]"
    by (auto split: sum.splits)
  have p: "ht_pre (ExtendibleHashTable_new (\<lambda>k. k) 2 :: (nat, nat) ExtendibleHashTable)"
    by (simp add: ht_pre_def ExtendibleHashTable_new_def dir_inv_def)
  show ?thesis
    using directory_invariant_preserved[OF p r, of 6 6] p r v
    by (intro conjI exI[of _ s]) simp_all
qed

section \<open>B+-tree index: theorems\<close>

lemma Leaf_Insert_duplicate:
  "Leaf_Lookup arr key = Some v \<Longrightarrow> Leaf_Insert arr key value = arr"
  by (auto simp: Leaf_Lookup_def Leaf_Insert_def Let_def split: if_splits)

lemma with_pins_nil: "with_pins [] (page_set s) s = s"
  by (simp add: with_pins_def)

lemma with_pins_page_set: "(with_pins held ps s)\<lparr>page_set := ps'\<rparr> = with_pins held ps' s"
  by (simp add: with_pins_def)

lemma with_pins_fields:
  "bpt_pages (with_pins held ps s) = bpt_pages s"
  "page_set (with_pins held ps s) = ps"
  "root_page_id (with_pins held ps s) = root_page_id s"
  by (simp_all add: with_pins_def)

lemma BPT_FetchPage_with_pins:
  "bpt_pages s c = Some child \<Longrightarrow>
   BPT_FetchPage c (with_pins held ps s) = Inr (child, with_pins (held @ [c]) ps s)"
  by (auto simp: BPT_FetchPage_def with_pins_def fun_eq_iff)

lemma BPT_FetchPage_with_pins_None:
  "bpt_pages s c = None \<Longrightarrow> BPT_FetchPage c (with_pins held ps s) = Inl PageNotResident"
  by (auto simp: BPT_FetchPage_def with_pins_def)

lemma BPT_UnpinPage_with_pins:
  "BPT_UnpinPage a False (with_pins (a # held) ps s) = with_pins held ps s"
  by (auto simp: BPT_UnpinPage_def with_pins_def fun_eq_iff)

lemma with_pins_cong:
  "(\<And>p. count_list held p = count_list held' p) \<Longrightarrow> with_pins held ps s = with_pins held' ps s"
  by (simp add: with_pins_def)

lemma release_with_pins:
  "fold (\<lambda>pid. BPT_UnpinPage pid False) L (with_pins (L @ R) ps s) = with_pins R ps s"
  by (induction L) (simp_all add: BPT_UnpinPage_with_pins)

lemma UnlockUnpinPages_with_pins:
  "UnlockUnpinPages (with_pins (ps @ R) ps s) = with_pins R [] s"
  by (simp add: UnlockUnpinPages_def with_pins_fields release_with_pins with_pins_page_set)

lemma FindLeaf_loop_FIND_INSERT:
  assumes "FindLeaf_loop n key FIND False False pid node (with_pins [pid] [] s0) = Inr (lp, leaf, sF)"
    and "bpt_pages s0 pid = Some node"
  shows "sF = with_pins [lp] [] s0 \<and> bpt_pages s0 lp = Some leaf \<and>
         (\<exists>ps'. FindLeaf_loop n key INSERT False False pid node (with_pins (ps @ [pid]) ps s0)
                  = Inr (lp, leaf, with_pins (ps' @ [lp]) ps' s0))"
  using assms
proof (induction n arbitrary: pid node ps)
  case 0
  then show ?case by simp
next
  case (Suc n)
  show ?case
  proof (cases node)
    case (LeafPage i p m nx arr)
    with Suc.prems show ?thesis by auto
  next
    case (InternalPage i p m arr)
    from Suc.prems(1) obtain c where c: "Internal_Lookup arr key = Some c"
      unfolding InternalPage by (auto split: option.splits)
    from Suc.prems(1) c obtain child where child: "bpt_pages s0 c = Some child"
      unfolding InternalPage
      by (cases "bpt_pages s0 c") (auto simp: BPT_FetchPage_with_pins_None)
    have f: "FindLeaf_loop n key FIND False False c child (with_pins [c] [] s0) = Inr (lp, leaf, sF)"
      using Suc.prems(1) c
      unfolding InternalPage
      by (simp add: BPT_FetchPage_with_pins[OF child] BPT_UnpinPage_with_pins)
    note ih = Suc.IH[OF f child]
    show ?thesis
    proof (cases "IsSafe child INSERT")
      case True
      from ih[of "[]"] obtain ps' where
        "FindLeaf_loop n key INSERT False False c child (with_pins [c] [] s0)
           = Inr (lp, leaf, with_pins (ps' @ [lp]) ps' s0)" by auto
      then have "FindLeaf_loop (Suc n) key INSERT False False pid node (with_pins (ps @ [pid]) ps s0)
           = Inr (lp, leaf, with_pins (ps' @ [lp]) ps' s0)"
        using c True UnlockUnpinPages_with_pins[of "ps @ [pid]" "[c]" s0]
        unfolding InternalPage
        by (simp add: BPT_FetchPage_with_pins[OF child] with_pins_fields with_pins_page_set)
      with ih[of "[]"] show ?thesis by blast
    next
      case False
      from ih[of "ps @ [pid]"] obtain ps' where
        "FindLeaf_loop n key INSERT False False c child (with_pins ((ps @ [pid]) @ [c]) (ps @ [pid]) s0)
           = Inr (lp, leaf, with_pins (ps' @ [lp]) ps' s0)" by auto
      then have "FindLeaf_loop (Suc n) key INSERT False False pid node (with_pins (ps @ [pid]) ps s0)
           = Inr (lp, leaf, with_pins (ps' @ [lp]) ps' s0)"
        using c False
        unfolding InternalPage
        by (simp add: BPT_FetchPage_with_pins[OF child] with_pins_fields with_pins_page_set)
      with ih[of "[]"] show ?thesis by blast
    qed
  qed
qed

text \<open>
  Claim C6. In a tree that is not empty, a key that \<^verbatim>\<open>GetValue\<close> finds is a key that
  \<^verbatim>\<open>Insert\<close> refuses: \<^verbatim>\<open>Insert\<close> returns false and the state after the call is the state
  before it, so no page content (the leaf chain is part of it), not the root page id, no pin
  count and no dirty flag has changed. The lookup itself leaves the state as it was, and the
  insert returns with the fuel the lookup needed. The transaction starts the call with an empty
  page set.
\<close>

theorem Insert_duplicate_is_noop:
  assumes "\<not> IsEmpty s" and "page_set s = []"
    and "GetValue n key s = Inr (Some v, s1)"
  shows "BPT_Insert n key value s = Inr (False, s) \<and> s1 = s"
proof -
  from assms(3) obtain root where root: "bpt_pages s (root_page_id s) = Some root"
    by (cases "bpt_pages s (root_page_id s)")
       (auto simp: GetValue_def FindLeafPageByOperation_def BPT_FetchPage_def)
  have s: "s = with_pins [] [] s" using with_pins_nil[of s] assms(2) by simp
  have fetch: "BPT_FetchPage (root_page_id s) s = Inr (root, with_pins [root_page_id s] [] s)"
    using BPT_FetchPage_with_pins[OF root, of "[]" "[]"] s by simp
  from assms(3) obtain lp leaf sF where
    d: "FindLeaf_loop n key FIND False False (root_page_id s) root (with_pins [root_page_id s] [] s)
          = Inr (lp, leaf, sF)"
    by (auto simp: GetValue_def FindLeafPageByOperation_def fetch split: sum.splits)
  from FindLeaf_loop_FIND_INSERT[OF d root, of "[]"] obtain ps' where
    sF: "sF = with_pins [lp] [] s" and leaf: "bpt_pages s lp = Some leaf"
    and i: "FindLeaf_loop n key INSERT False False (root_page_id s) root (with_pins [root_page_id s] [] s)
              = Inr (lp, leaf, with_pins (ps' @ [lp]) ps' s)"
    by auto
  from assms(3) d obtain i p m nx arr where
    l: "leaf = LeafPage i p m nx arr" and look: "Leaf_Lookup arr key = Some v"
    and s1: "s1 = BPT_UnpinPage lp False sF"
    by (cases leaf) (auto simp: GetValue_def FindLeafPageByOperation_def fetch)
  have "s1 = s" unfolding s1 sF using BPT_UnpinPage_with_pins[of lp "[]" "[]" s] s by simp
  moreover have "SetPage lp leaf (with_pins (ps' @ [lp]) ps' s) = with_pins (ps' @ [lp]) ps' s"
    using leaf by (simp add: SetPage_def with_pins_def map_upd_triv)
  then have "InsertIntoLeaf n key value s = Inr (False, s)"
    using i l Leaf_Insert_duplicate[OF look, of "value"] s
      UnlockUnpinPages_with_pins[of ps' "[lp]" s] BPT_UnpinPage_with_pins[of lp "[]" "[]" s]
    by (simp add: InsertIntoLeaf_def FindLeafPageByOperation_def fetch)
  ultimately show ?thesis using assms(1) by (simp add: BPT_Insert_def)
qed

text \<open>The theorem at the tree \<open>bpt_two_leaves\<close> and the key 3, which the descent finds in
  the second leaf.\<close>

theorem Insert_duplicate_is_noop_witness:
  "\<not> IsEmpty bpt_two_leaves \<and> page_set bpt_two_leaves = [] \<and>
   (\<exists>s1. GetValue 10 3 bpt_two_leaves = Inr (Some 3, s1)) \<and>
   BPT_Insert 10 3 7 bpt_two_leaves = Inr (False, bpt_two_leaves)"
proof -
  have e: "\<not> IsEmpty bpt_two_leaves" and ps: "page_set bpt_two_leaves = []"
    by (simp_all add: IsEmpty_def bpt_two_leaves_def INVALID_PAGE_ID_def)
  have "case GetValue 10 3 bpt_two_leaves of Inr (Some v, _) \<Rightarrow> v = 3 | _ \<Rightarrow> False"
    by code_simp
  then obtain s1 where g: "GetValue 10 3 bpt_two_leaves = Inr (Some 3, s1)"
    by (auto split: sum.splits option.splits)
  show ?thesis
    using Insert_duplicate_is_noop[OF e ps g, of 7] e ps g by simp
qed

end
